theory Spec2Isabelle
  imports Main "HOL-Library.Word"
begin

unbundle bit_operations_syntax

section \<open>Bit reversal\<close>

text \<open>
  \<^verbatim>\<open>reverse_bit(num)\<close> of \<^verbatim>\<open>adafruit_sharpmemorydisplay.py\<close>: eight rounds of
  \<^verbatim>\<open>result <<= 1; result += num & 1; num >>= 1\<close> on Python's unbounded integers.
  Python's \<^verbatim>\<open>>>\<close> on a negative integer is the arithmetic shift, which is
  \<open>drop_bit\<close> on \<open>int\<close>.
\<close>

fun reverse_bit_loop :: "nat \<Rightarrow> int \<Rightarrow> int \<Rightarrow> int" where
  "reverse_bit_loop 0 result num = result"
| "reverse_bit_loop (Suc k) result num =
     reverse_bit_loop k (push_bit 1 result + (num AND 1)) (drop_bit 1 num)"

definition reverse_bit :: "int \<Rightarrow> int" where
  "reverse_bit num = reverse_bit_loop 8 0 num"

section \<open>Errors, the pixel store and the bus\<close>

text \<open>
  Every \<^verbatim>\<open>raise\<close> the driver can meet is a value. \<open>InvalidFormat\<close> is the
  \<^verbatim>\<open>ValueError("Image must be in mode 1.")\<close> of \<^verbatim>\<open>image\<close>, \<open>SizeMismatch\<close> its
  \<^verbatim>\<open>ValueError("Image must be same dimensions as display ...")\<close>, \<open>NegativeCount\<close> the
  \<^verbatim>\<open>ValueError\<close> of \<^verbatim>\<open>bytearray(n)\<close> for \<open>n < 0\<close>, \<open>IndexError\<close> an index outside a
  \<^verbatim>\<open>bytearray\<close>, and \<open>TransportFailure\<close> whatever \<^verbatim>\<open>spi.write\<close> raises.
\<close>

datatype error = InvalidFormat | SizeMismatch | NegativeCount | IndexError | TransportFailure

text \<open>
  The driver holds two references to byte arrays, \<^verbatim>\<open>self.buffer\<close> (its own attribute) and
  \<^verbatim>\<open>self.buf\<close> (the attribute of the \<^verbatim>\<open>FrameBuffer\<close> base class, set by
  \<^verbatim>\<open>super().__init__(self.buffer, ...)\<close>). They start as the same object and
  \<^verbatim>\<open>image\<close> reassigns one of them, so the arrays live in a store addressed by
  references. A byte is a Python integer in \<open>0..255\<close>. \<^verbatim>\<open>self._buf\<close> is
  \<^verbatim>\<open>bytearray(1)\<close>, never shared and never resized: \<open>priv_buf\<close> is its one byte.
\<close>

type_synonym addr = nat

record display =
  width :: int
  height :: int
  stride :: int
  rotation :: int
  buf :: addr
  buffer :: addr
  priv_buf :: int
  priv_vcom :: bool
  heap :: "addr \<Rightarrow> int list"
  next_addr :: addr

text \<open>
  \<^verbatim>\<open>__init__(spi, scs_pin, width, height)\<close>: \<^verbatim>\<open>self._buf = bytearray(1)\<close>,
  \<^verbatim>\<open>self.buffer = bytearray((width // 8) * height)\<close>, the base class keeps the same
  array as \<^verbatim>\<open>buf\<close> with \<^verbatim>\<open>stride = width\<close> and \<^verbatim>\<open>rotation = 0\<close>, and
  \<^verbatim>\<open>self._vcom = True\<close>. Python's \<^verbatim>\<open>//\<close> rounds down, as \<open>div\<close> on \<open>int\<close> does.
\<close>

definition init_display :: "int \<Rightarrow> int \<Rightarrow> error + display" where
  "init_display w h =
     (if (w div 8) * h < 0 then Inl NegativeCount
      else Inr \<lparr>width = w, height = h, stride = w, rotation = 0, buf = 0, buffer = 0,
                priv_buf = 0, priv_vcom = True,
                heap = (\<lambda>a. if a = 0 then replicate (nat ((w div 8) * h)) 0 else []),
                next_addr = 1\<rparr>)"

text \<open>
  The SPI device behind \<^verbatim>\<open>with self.spi_device as spi\<close>. Entering the block takes the
  bus lock, configures the bus and asserts chip select, and may raise: \<open>enters\<close> tells
  whether it succeeds. When it raises the block is not run at all. Leaving the block
  releases the bus on every path and does not touch the driver's state. \<open>wire\<close> is
  every byte written so far, in order. \<^verbatim>\<open>spi.write\<close> may raise as well: \<open>writes\<close> is the
  number of further calls that succeed (\<open>None\<close>: all of them), so that a failure at any
  point of a frame can be played. A write that raises puts nothing on the wire.
\<close>

record spi_bus =
  wire :: "int list"
  enters :: bool
  writes :: "nat option"

definition spi_write :: "spi_bus \<Rightarrow> int list \<Rightarrow> error + spi_bus" where
  "spi_write bus data =
     (case writes bus of
        None \<Rightarrow> Inr (bus\<lparr>wire := wire bus @ data\<rparr>)
      | Some 0 \<Rightarrow> Inl TransportFailure
      | Some (Suc k) \<Rightarrow> Inr (bus\<lparr>wire := wire bus @ data, writes := Some k\<rparr>))"

text \<open>
  How many writes of one \<^verbatim>\<open>with\<close> block the device lets through: none when the block
  cannot be entered, otherwise as many as \<open>writes\<close> says (\<open>None\<close>: all of them).
\<close>

definition accepts :: "spi_bus \<Rightarrow> nat option" where
  "accepts bus = (if enters bus then writes bus else Some 0)"

text \<open>Python's slice \<^verbatim>\<open>xs[i:j]\<close>: negative bounds count from the end, all bounds are clipped.\<close>

definition slice_bound :: "int \<Rightarrow> int \<Rightarrow> int" where
  "slice_bound n k = (if k < 0 then max 0 (k + n) else min k n)"

definition py_slice :: "'a list \<Rightarrow> int \<Rightarrow> int \<Rightarrow> 'a list" where
  "py_slice xs i j =
     (let n = int (length xs); a = slice_bound n i; b = slice_bound n j
      in take (nat (b - a)) (drop (nat a) xs))"

section \<open>Writing a frame: \<^verbatim>\<open>show\<close>\<close>

text \<open>
  Lines 89 to 91: \<^verbatim>\<open>self._buf[0] = _SHARPMEM_BIT_WRITECMD\<close>, then
  \<^verbatim>\<open>self._buf[0] |= _SHARPMEM_BIT_VCOM\<close> when \<^verbatim>\<open>self._vcom\<close> holds.
\<close>

definition command_byte :: "bool \<Rightarrow> int" where
  "command_byte vcom = (if vcom then 0x80 OR 0x40 else 0x80)"

text \<open>
  The loop \<^verbatim>\<open>for line in range(self.height)\<close> (lines 97 to 103) over the remaining line
  numbers. An exception of \<^verbatim>\<open>spi.write\<close> leaves the loop with \<^verbatim>\<open>self._buf\<close> as it
  was at that moment. The result is the byte in \<^verbatim>\<open>self._buf\<close>, the bus and the
  exception, if any. The store \<^verbatim>\<open>self._buf[0] = reverse_bit(line + 1)\<close> never raises:
  \<open>reverse_bit\<close> always returns a byte (lemma \<open>reverse_bit_range\<close> below).
\<close>

fun show_lines ::
  "int list \<Rightarrow> int list \<Rightarrow> int \<Rightarrow> int \<Rightarrow> int \<Rightarrow> spi_bus \<Rightarrow> int \<times> spi_bus \<times> error option" where
  "show_lines [] pixels line_len slice_from b bus = (b, bus, None)"
| "show_lines (line # lines) pixels line_len slice_from b bus =
     (case spi_write bus [reverse_bit (line + 1)] of
        Inl e \<Rightarrow> (reverse_bit (line + 1), bus, Some e)
      | Inr bus1 \<Rightarrow>
          (case spi_write bus1 (py_slice pixels slice_from (slice_from + line_len)) of
             Inl e \<Rightarrow> (reverse_bit (line + 1), bus1, Some e)
           | Inr bus2 \<Rightarrow>
               (case spi_write bus2 [0] of
                  Inl e \<Rightarrow> (0, bus2, Some e)
                | Inr bus3 \<Rightarrow> show_lines lines pixels line_len (slice_from + line_len) 0 bus3)))"

text \<open>
  \<^verbatim>\<open>show(self)\<close>. When entering \<^verbatim>\<open>with self.spi_device as spi\<close> (line 86) raises,
  nothing of the body runs and the state stays as it was. Otherwise the command byte is
  built and the toggle bit flipped (lines 89 to 92) before the first write. The state
  returned is the state left behind also when a write raised. The last write sends
  \<^verbatim>\<open>self._buf\<close> as the loop left it.
\<close>

definition show_display :: "display \<Rightarrow> spi_bus \<Rightarrow> display \<times> spi_bus \<times> error option" where
  "show_display s bus =
     (if \<not> enters bus then (s, bus, Some TransportFailure)
      else
        let s1 = s\<lparr>priv_buf := command_byte (priv_vcom s), priv_vcom := \<not> priv_vcom s\<rparr>
        in case spi_write bus [priv_buf s1] of
             Inl e \<Rightarrow> (s1, bus, Some e)
           | Inr bus1 \<Rightarrow>
               (case show_lines (map int [0..<nat (height s1)]) (heap s1 (buffer s1))
                       (width s1 div 8) 0 (priv_buf s1) bus1 of
                  (b, bus2, Some e) \<Rightarrow> (s1\<lparr>priv_buf := b\<rparr>, bus2, Some e)
                | (b, bus2, None) \<Rightarrow>
                    (case spi_write bus2 [b] of
                       Inl e \<Rightarrow> (s1\<lparr>priv_buf := b\<rparr>, bus2, Some e)
                     | Inr bus3 \<Rightarrow> (s1\<lparr>priv_buf := b\<rparr>, bus3, None))))"

section \<open>The framebuffer primitives\<close>

text \<open>
  A colour or pixel value as Python passes it around: an integer (mode \<^verbatim>\<open>"1"\<close> reads
  \<open>0\<close> or \<open>255\<close>) or an RGB tuple. \<open>truthy\<close> is Python's truth value (a three-element
  tuple is true), \<open>nonzero\<close> is \<^verbatim>\<open>color != 0\<close> (a tuple never equals \<open>0\<close>).
\<close>

datatype pixval = Mono int | RGB int int int

fun truthy :: "pixval \<Rightarrow> bool" where
  "truthy (Mono v) = (v \<noteq> 0)"
| "truthy (RGB r g b) = True"

fun nonzero :: "pixval \<Rightarrow> bool" where
  "nonzero (Mono v) = (v \<noteq> 0)"
| "nonzero (RGB r g b) = True"

text \<open>
  Modelled from the spec: \<^verbatim>\<open>FrameBuffer.pixel\<close> and the \<^verbatim>\<open>MHMSB\<close> format that
  \<^verbatim>\<open>__init__\<close> selects belong to the \<^verbatim>\<open>adafruit_framebuf\<close> base class, which is not
  under src/. Section 3 gives the layout (``Row r occupies bytes[r*rowBytes ..
  (r+1)*rowBytes), MSB of each byte is the leftmost pixel''), section 4.1 the single bit
  that a set changes. The base class computes the byte as
  \<^verbatim>\<open>index = (y * stride + x) // 8\<close> and the bit as \<^verbatim>\<open>offset = 7 - x & 0x07\<close>, and stores
  \<^verbatim>\<open>(buf[index] & ~(1 << offset)) | ((color != 0) << offset)\<close>; a store outside the
  array raises \<^verbatim>\<open>IndexError\<close> (a negative index counts from the end).
\<close>

definition set_pixel :: "display \<Rightarrow> int \<Rightarrow> int \<Rightarrow> pixval \<Rightarrow> display \<times> error option" where
  "set_pixel s x y color =
     (let index = (y * stride s + x) div 8;
          offset = nat ((7 - x) AND 7);
          bytes = heap s (buf s);
          n = int (length bytes);
          i = (if index < 0 then index + n else index)
      in if i < 0 \<or> n \<le> i then (s, Some IndexError)
         else (s\<lparr>heap := (heap s)(buf s := bytes[nat i :=
                    ((bytes ! nat i) AND NOT (push_bit offset 1))
                      OR push_bit offset (of_bool (nonzero color))])\<rparr>, None))"

text \<open>
  Modelled from the spec: the coordinate mapping at the head of \<^verbatim>\<open>FrameBuffer.pixel\<close> of
  the base class, not under src/, for the \<^verbatim>\<open>rotation\<close> that \<^verbatim>\<open>image\<close> reads (section
  4.4, ``an optional rotation parameter that swaps the effective width/height''):
  \<open>1\<close> is \<^verbatim>\<open>x, y = y, x; x = width - x - 1\<close>, \<open>2\<close> mirrors both coordinates, \<open>3\<close> is
  \<^verbatim>\<open>x, y = y, x; y = height - y - 1\<close>.
\<close>

definition rotated :: "display \<Rightarrow> int \<Rightarrow> int \<Rightarrow> int \<times> int" where
  "rotated s x y =
     (if rotation s = 1 then (width s - y - 1, x)
      else if rotation s = 2 then (width s - x - 1, height s - y - 1)
      else if rotation s = 3 then (y, height s - x - 1)
      else (x, y))"

text \<open>
  Modelled from the spec: \<^verbatim>\<open>FrameBuffer.pixel(x, y, color)\<close> of the base class, not under
  src/ (section 4.1, \<^verbatim>\<open>set(x, y, bit)\<close>). It maps the coordinates through the rotation,
  returns without effect for a pixel outside the panel, and otherwise sets the pixel.
\<close>

definition pixel :: "display \<Rightarrow> int \<Rightarrow> int \<Rightarrow> pixval \<Rightarrow> display \<times> error option" where
  "pixel s x y color =
     (case rotated s x y of (x', y') \<Rightarrow>
        if x' < 0 \<or> width s \<le> x' \<or> y' < 0 \<or> height s \<le> y' then (s, None)
        else set_pixel s x' y' color)"

text \<open>
  Modelled from the spec: \<^verbatim>\<open>FrameBuffer.fill(color)\<close> of the base class, not under src/;
  section 4.1, ``clear(): sets every byte to zero'', is \<open>fill s (Mono 0)\<close>. Every byte
  becomes \<open>0xFF\<close> for a true colour and \<open>0x00\<close> otherwise.
\<close>

definition fill :: "display \<Rightarrow> pixval \<Rightarrow> display" where
  "fill s color =
     s\<lparr>heap := (heap s)(buf s :=
         replicate (length (heap s (buf s))) (if truthy color then 0xFF else 0x00))\<rparr>"

section \<open>Loading an image: \<^verbatim>\<open>image\<close>\<close>

text \<open>
  What \<^verbatim>\<open>image\<close> reads of the image object: \<^verbatim>\<open>img.mode\<close>, \<^verbatim>\<open>img.size\<close> and the pixel
  access \<^verbatim>\<open>pixels[(x, y)]\<close> of \<^verbatim>\<open>img.load()\<close>.
\<close>

record pil_image =
  mode :: string
  size_wh :: "int \<times> int"
  load :: "int \<times> int \<Rightarrow> pixval"

text \<open>
  Modelled from the spec: \<^verbatim>\<open>numpy.asarray(img)\<close> is not under src/. The array of a mode
  \<^verbatim>\<open>"1"\<close> image has one row of booleans per image row, true where the pixel is lit.
\<close>

definition asarray :: "pil_image \<Rightarrow> bool list list" where
  "asarray img =
     (case size_wh img of (w, h) \<Rightarrow>
        map (\<lambda>y. map (\<lambda>x. truthy (load img (int x, int y))) [0..<nat w]) [0..<nat h])"

text \<open>
  Modelled from the spec: \<^verbatim>\<open>numpy.packbits\<close> is not under src/. Section 4.4: ``pack 8
  source pixels per output byte''. The first pixel goes to the most significant bit; a
  group of fewer than eight pixels is padded with zero bits at the end.
\<close>

definition pack_byte :: "bool list \<Rightarrow> int" where
  "pack_byte bits = horner_sum of_bool 2 (rev (bits @ replicate (8 - length bits) False))"

text \<open>
  Modelled from the spec: \<^verbatim>\<open>numpy.packbits(..., axis=1)\<close> on one row, not under src/: the
  row is cut into groups of eight pixels, the last one possibly shorter.
\<close>

definition pack_row :: "bool list \<Rightarrow> int list" where
  "pack_row bits = map (\<lambda>j. pack_byte (take 8 (drop (8 * j) bits))) [0..<(length bits + 7) div 8]"

text \<open>
  Modelled from the spec: \<^verbatim>\<open>numpy.packbits(..., axis=1).flatten().tolist()\<close>, not under
  src/. Section 4.4: ``row by row''. Each row is packed on its own and the packed rows
  follow one another.
\<close>

definition packbits :: "bool list list \<Rightarrow> int list" where
  "packbits rows = concat (map pack_row rows)"

text \<open>
  Lines 110 to 124: the effective size under the rotation, the mode check, then the size
  check, in this order. \<open>None\<close> when the image passes both.
\<close>

definition effective_size :: "display \<Rightarrow> int \<times> int" where
  "effective_size s =
     (if rotation s = 1 \<or> rotation s = 3 then (height s, width s) else (width s, height s))"

definition image_checks :: "display \<Rightarrow> pil_image \<Rightarrow> error option" where
  "image_checks s img =
     (if mode img \<noteq> ''1'' then Some InvalidFormat
      else if fst (size_wh img) \<noteq> fst (effective_size s)
              \<or> snd (size_wh img) \<noteq> snd (effective_size s) then Some SizeMismatch
      else None)"

text \<open>
  The body of the double loop, lines 139 to 142: which branch of
  \<^verbatim>\<open>if img.mode == "RGB": ... elif pixels[(x, y)]: ...\<close> a pixel takes.
\<close>

datatype branch = RGB_branch | Lit_branch | Skip_branch

definition pixel_branch :: "pil_image \<Rightarrow> int \<Rightarrow> int \<Rightarrow> branch" where
  "pixel_branch img x y =
     (if mode img = ''RGB'' then RGB_branch
      else if truthy (load img (x, y)) then Lit_branch
      else Skip_branch)"

fun image_pixels :: "pil_image \<Rightarrow> (int \<times> int) list \<Rightarrow> display \<Rightarrow> display \<times> error option" where
  "image_pixels img [] s = (s, None)"
| "image_pixels img ((x, y) # ps) s =
     (case (case pixel_branch img x y of
              RGB_branch \<Rightarrow> pixel s x y (load img (x, y))
            | Lit_branch \<Rightarrow> pixel s x y (Mono 1)
            | Skip_branch \<Rightarrow> (s, None)) of
        (s', Some e) \<Rightarrow> (s', Some e)
      | (s', None) \<Rightarrow> image_pixels img ps s')"

text \<open>
  \<^verbatim>\<open>image(self, img)\<close>. \<open>numpy\<close> tells whether the import of \<^verbatim>\<open>numpy\<close> succeeded. With
  it, \<^verbatim>\<open>self.buffer\<close> is bound to a new array and \<^verbatim>\<open>self.buf\<close> keeps the old one.
  Without it, \<^verbatim>\<open>self.buf\<close> is zeroed and the pixels are set one by one, \<open>x\<close> in the
  outer loop and \<open>y\<close> in the inner one.
\<close>

definition image_display :: "bool \<Rightarrow> display \<Rightarrow> pil_image \<Rightarrow> display \<times> error option" where
  "image_display numpy s img =
     (case image_checks s img of
        Some e \<Rightarrow> (s, Some e)
      | None \<Rightarrow>
          if numpy then
            (s\<lparr>buffer := next_addr s,
               heap := (heap s)(next_addr s := packbits (asarray img)),
               next_addr := Suc (next_addr s)\<rparr>, None)
          else
            image_pixels img
              (List.product (map int [0..<nat (fst (effective_size s))])
                            (map int [0..<nat (snd (effective_size s))]))
              (s\<lparr>heap := (heap s)(buf s := replicate (length (heap s (buf s))) 0)\<rparr>))"

section \<open>Frames and example panels\<close>

text \<open>
  The bytes of the line frames that the loop of \<^verbatim>\<open>show\<close> hands to a bus that accepts
  every write: for each line its address, its slice of the pixel array and a zero.
\<close>

fun line_frames :: "int list \<Rightarrow> int list \<Rightarrow> int \<Rightarrow> int \<Rightarrow> int list" where
  "line_frames [] pixels line_len slice_from = []"
| "line_frames (line # lines) pixels line_len slice_from =
     reverse_bit (line + 1) # py_slice pixels slice_from (slice_from + line_len) @ 0 #
       line_frames lines pixels line_len (slice_from + line_len)"

text \<open>
  Buses and panels to run the driver on: a bus that accepts every write, a bus whose
  first write raises, a bus whose \<^verbatim>\<open>with\<close> block cannot be entered, a panel as
  \<^verbatim>\<open>__init__\<close> leaves it but with given pixel bytes, and the state after one \<^verbatim>\<open>show\<close>
  per bus of a list.
\<close>

definition idle_bus :: spi_bus where
  "idle_bus = \<lparr>wire = [], enters = True, writes = None\<rparr>"

definition dead_bus :: spi_bus where
  "dead_bus = \<lparr>wire = [], enters = True, writes = Some 0\<rparr>"

definition absent_bus :: spi_bus where
  "absent_bus = \<lparr>wire = [], enters = False, writes = None\<rparr>"

definition panel :: "int \<Rightarrow> int \<Rightarrow> int list \<Rightarrow> display" where
  "panel w h bytes =
     \<lparr>width = w, height = h, stride = w, rotation = 0, buf = 0, buffer = 0,
      priv_buf = 0, priv_vcom = True,
      heap = (\<lambda>a. if a = 0 then bytes else []), next_addr = 1\<rparr>"

definition refreshes :: "display \<Rightarrow> spi_bus list \<Rightarrow> display" where
  "refreshes s buses = foldl (\<lambda>s bus. fst (show_display s bus)) s buses"

text \<open>
  Images to load: one lit pixel at the origin of an 8 by 1 and of a 1 by 8 image of mode
  \<^verbatim>\<open>"1"\<close>, and a 1 by 1 image of mode \<^verbatim>\<open>"RGB"\<close>.
\<close>

definition corner_dot :: pil_image where
  "corner_dot = \<lparr>mode = ''1'', size_wh = (8, 1),
                 load = (\<lambda>(x, y). if x = 0 \<and> y = 0 then Mono 255 else Mono 0)\<rparr>"

definition column_dot :: pil_image where
  "column_dot = \<lparr>mode = ''1'', size_wh = (1, 8),
                 load = (\<lambda>(x, y). if x = 0 \<and> y = 0 then Mono 255 else Mono 0)\<rparr>"

definition rgb_dot :: pil_image where
  "rgb_dot = \<lparr>mode = ''RGB'', size_wh = (1, 1), load = (\<lambda>p. RGB 255 255 255)\<rparr>"

section \<open>Properties of the bit reversal\<close>

lemma shifted_plus_low_bit:
  fixes r num :: int
  shows "bit (push_bit 1 r + (num AND 1)) m \<longleftrightarrow> (if m = 0 then bit num 0 else bit r (m - 1))"
proof -
  have "2 * r + (num AND 1) = 2 * r OR (num AND 1)"
  proof (rule disjunctive_add)
    fix n
    show "\<not> bit (2 * r) n \<or> \<not> bit (num AND 1) n"
      by (cases n) (simp_all add: bit_simps bit_double_iff)
  qed
  then have "push_bit 1 r + (num AND 1) = 2 * r OR (num AND 1)"
    by (simp add: mult.commute)
  then show ?thesis
    by (cases m) (auto simp: bit_simps bit_double_iff)
qed

lemma bit_reverse_bit_loop:
  "bit (reverse_bit_loop k r num) n \<longleftrightarrow> (if n < k then bit num (k - 1 - n) else bit r (n - k))"
proof (induction k arbitrary: r num)
  case 0
  then show ?case by simp
next
  case (Suc k)
  have step: "reverse_bit_loop (Suc k) r num = reverse_bit_loop k (push_bit 1 r + (num AND 1)) (drop_bit 1 num)"
    by simp
  show ?case
  proof (cases "n < k")
    case True
    then show ?thesis
      unfolding step by (simp add: Suc.IH bit_simps Suc_diff_Suc del: reverse_bit_loop.simps)
  next
    case False
    then show ?thesis
      unfolding step Suc.IH shifted_plus_low_bit by (auto simp: not_less less_Suc_eq)
  qed
qed

lemma bit_reverse_bit: "bit (reverse_bit num) n \<longleftrightarrow> n < 8 \<and> bit num (7 - n)"
  by (simp add: reverse_bit_def bit_reverse_bit_loop)

lemma reverse_bit_take_bit: "take_bit 8 (reverse_bit num) = reverse_bit num"
  by (rule bit_eqI) (auto simp: bit_simps bit_reverse_bit)

lemma reverse_bit_range: "0 \<le> reverse_bit num \<and> reverse_bit num \<le> 255"
proof -
  have "0 \<le> take_bit 8 (reverse_bit num)"
    by simp
  moreover have "take_bit 8 (reverse_bit num) < 2 ^ 8"
    by (rule take_bit_int_less_exp)
  ultimately show ?thesis
    by (simp add: reverse_bit_take_bit)
qed

lemma byte_bit_bound:
  assumes "0 \<le> b" "b \<le> (255::int)" "bit b n"
  shows "n < 8"
proof (rule ccontr)
  assume "\<not> n < 8"
  then have "8 \<le> n" by simp
  have "take_bit 8 b = b"
    using assms(1,2) by (simp add: take_bit_int_eq_self)
  then have "bit (take_bit 8 b) n"
    using assms(3) by simp
  then show False
    using \<open>8 \<le> n\<close> by (simp add: bit_simps)
qed

text \<open>
  C5. The bit reversal is an involution on bytes: for every \<open>b\<close> with
  \<open>0 \<le> b\<close> and \<open>b \<le> 255\<close>, reversing \<open>b\<close> twice gives \<open>b\<close> back.
\<close>

theorem reverse_bit_involution:
  "0 \<le> b \<Longrightarrow> b \<le> 255 \<Longrightarrow> reverse_bit (reverse_bit b) = b"
proof (rule bit_eqI)
  fix n
  assume b: "0 \<le> b" "b \<le> 255"
  show "bit (reverse_bit (reverse_bit b)) n \<longleftrightarrow> bit b n"
  proof (cases "n < 8")
    case True
    then have "7 - (7 - n) = n" "7 - n < 8" by simp_all
    then show ?thesis using True by (simp add: bit_reverse_bit)
  next
    case False
    with b show ?thesis
      using byte_bit_bound [of b n] by (auto simp: bit_reverse_bit)
  qed
qed

theorem reverse_bit_involution_witness:
  "(0::int) \<le> 178 \<and> (178::int) \<le> 255 \<and> reverse_bit 178 = 77 \<and> reverse_bit (reverse_bit 178) = 178"
proof -
  have "reverse_bit 178 = 77"
    by (simp add: reverse_bit_def numeral_eq_Suc)
  then show ?thesis
    using reverse_bit_involution [of 178] by simp
qed

section \<open>The frame written by \<^verbatim>\<open>show\<close>\<close>

lemma accepts_None: "accepts bus = None \<longleftrightarrow> enters bus \<and> writes bus = None"
  by (simp add: accepts_def)

lemma accepts_alive: "accepts bus \<noteq> Some 0 \<longleftrightarrow> enters bus \<and> writes bus \<noteq> Some 0"
  by (simp add: accepts_def)

lemma accepts_wire: "accepts (bus\<lparr>wire := w\<rparr>) = accepts bus"
  by (simp add: accepts_def)

lemma spi_write_accepting:
  "accepts bus = None \<Longrightarrow> spi_write bus d = Inr (bus\<lparr>wire := wire bus @ d\<rparr>)"
  by (simp add: spi_write_def accepts_None)

lemma show_lines_accepting:
  "accepts bus = None \<Longrightarrow>
     show_lines ls px ll sf b bus =
       (if ls = [] then b else 0, bus\<lparr>wire := wire bus @ line_frames ls px ll sf\<rparr>, None)"
proof (induction ls arbitrary: sf b bus)
  case Nil
  then show ?case by simp
next
  case (Cons l ls)
  then show ?case
    by (simp add: spi_write_accepting accepts_wire)
qed

lemma line_frames_upt:
  "line_frames (map int [a..<a + n]) px ll (int a * ll) =
     concat (map (\<lambda>r. reverse_bit (int r + 1) # py_slice px (int r * ll) (int r * ll + ll) @ [0])
                 [a..<a + n])"
proof (induction n arbitrary: a)
  case 0
  then show ?case by simp
next
  case (Suc n)
  have "[a..<a + Suc n] = a # [Suc a..<Suc a + n]"
    by (simp add: upt_conv_Cons)
  moreover have "int a * ll + ll = int (Suc a) * ll"
    by (simp add: algebra_simps)
  ultimately show ?case
    using Suc.IH [of "Suc a"] by simp
qed

lemma slice_bound_nat: "slice_bound (int n) (int m) = int (min m n)"
  by (simp add: slice_bound_def)

lemma py_slice_nat: "py_slice xs (int a) (int b) = take (min b (length xs) - min a (length xs)) (drop a xs)"
proof -
  have "nat (int (min b (length xs)) - int (min a (length xs))) = min b (length xs) - min a (length xs)"
    by linarith
  moreover have "drop (min a (length xs)) xs = drop a xs"
    by (cases "a \<le> length xs") (simp_all add: min_def)
  ultimately show ?thesis
    by (simp add: py_slice_def Let_def slice_bound_nat)
qed

lemma py_slice_row:
  assumes "(r + 1) * k \<le> length xs"
  shows "py_slice xs (int r * int k) (int r * int k + int k) = map (\<lambda>i. xs ! (r * k + i)) [0..<k]"
proof -
  have le: "r * k + k \<le> length xs"
    using assms by (simp add: algebra_simps)
  have "py_slice xs (int r * int k) (int r * int k + int k) = py_slice xs (int (r * k)) (int (r * k + k))"
    by simp
  also have "\<dots> = take k (drop (r * k) xs)"
    unfolding py_slice_nat using le by (simp add: min_def)
  also have "\<dots> = map (\<lambda>i. xs ! (r * k + i)) [0..<k]"
    using le by (intro nth_equalityI) simp_all
  finally show ?thesis .
qed

lemma show_display_accepting:
  assumes "accepts bus = None"
  shows "show_display s bus =
    (s\<lparr>priv_buf := (if height s \<le> 0 then command_byte (priv_vcom s) else 0),
       priv_vcom := \<not> priv_vcom s\<rparr>,
     bus\<lparr>wire := wire bus @ command_byte (priv_vcom s) #
        line_frames (map int [0..<nat (height s)]) (heap s (buffer s)) (width s div 8) 0 @
        [if height s \<le> 0 then command_byte (priv_vcom s) else 0]\<rparr>,
     None)"
  using assms
  by (simp add: show_display_def Let_def spi_write_accepting show_lines_accepting accepts_wire)
    (simp add: accepts_None)

lemma show_display_state:
  "fst (show_display s bus) =
     s\<lparr>priv_buf := priv_buf (fst (show_display s bus)),
       priv_vcom := priv_vcom (fst (show_display s bus))\<rparr>"
  by (simp add: show_display_def Let_def split: sum.splits prod.splits option.splits)

lemma init_display_panel: "0 \<le> (w div 8) * h \<Longrightarrow> init_display w h = Inr (panel w h (replicate (nat ((w div 8) * h)) 0))"
  by (simp add: init_display_def panel_def)

text \<open>
  C1. On a panel of at least one row whose pixel array has \<open>(width div 8) * height\<close>
  bytes, and a bus that accepts every write, one \<^verbatim>\<open>show\<close> puts on the wire the command
  byte, then for each row \<open>r\<close> the byte \<open>reverse_bit (r + 1)\<close>, the \<open>width div 8\<close> bytes
  of the row as they are in the array, and a zero, then one more zero. For width 8,
  height 1 and the row byte \<open>0x80\<close> these are five bytes: the command byte, \<open>0x80\<close>,
  \<open>0x80\<close>, \<open>0x00\<close>, \<open>0x00\<close>.
\<close>

theorem show_frame_bytes:
  assumes "1 \<le> height s" and "0 \<le> width s"
    and "length (heap s (buffer s)) = nat (width s div 8 * height s)"
    and "accepts bus = None"
  shows "show_display s bus =
           (s\<lparr>priv_buf := 0, priv_vcom := \<not> priv_vcom s\<rparr>,
            bus\<lparr>wire := wire bus @ [command_byte (priv_vcom s)] @
               concat (map (\<lambda>r. [reverse_bit (int r + 1)] @
                                 map (\<lambda>i. heap s (buffer s) ! (r * nat (width s div 8) + i))
                                     [0..<nat (width s div 8)] @ [0])
                           [0..<nat (height s)]) @ [0]\<rparr>,
            None)
         \<and> length (wire (fst (snd (show_display s bus)))) =
             length (wire bus) + 1 + nat (height s) * (1 + nat (width s div 8) + 1) + 1
         \<and> (width s = 8 \<and> height s = 1 \<and> heap s (buffer s) = [0x80] \<longrightarrow>
              wire (fst (snd (show_display s bus))) =
                wire bus @ [command_byte (priv_vcom s), 0x80, 0x80, 0x00, 0x00])"
proof -
  define k where "k = nat (width s div 8)"
  define h where "h = nat (height s)"
  define px where "px = heap s (buffer s)"
  have wk: "width s div 8 = int k"
    using assms(2) by (simp add: k_def pos_imp_zdiv_nonneg_iff)
  have len: "length px = h * k"
    using assms(1,3) by (simp add: wk px_def h_def nat_mult_distrib mult.commute)
  have row: "py_slice px (int r * int k) (int r * int k + int k) = map (\<lambda>i. px ! (r * k + i)) [0..<k]"
    if "r < h" for r
  proof (rule py_slice_row)
    from that have "(r + 1) * k \<le> h * k"
      by (intro mult_le_mono1) simp
    then show "(r + 1) * k \<le> length px"
      by (simp add: len)
  qed
  have "line_frames (map int [0..<0 + h]) px (int k) (int 0 * int k) =
          concat (map (\<lambda>r. reverse_bit (int r + 1) # py_slice px (int r * int k) (int r * int k + int k) @ [0]) [0..<0 + h])"
    by (rule line_frames_upt)
  also have "\<dots> = concat (map (\<lambda>r. [reverse_bit (int r + 1)] @ map (\<lambda>i. px ! (r * k + i)) [0..<k] @ [0]) [0..<h])"
  proof -
    have "map (\<lambda>r. reverse_bit (int r + 1) # py_slice px (int r * int k) (int r * int k + int k) @ [0]) [0..<0 + h]
        = map (\<lambda>r. [reverse_bit (int r + 1)] @ map (\<lambda>i. px ! (r * k + i)) [0..<k] @ [0]) [0..<h]"
      by (rule map_cong) (simp_all add: row)
    then show ?thesis by (simp only:)
  qed
  finally have frames: "line_frames (map int [0..<h]) px (int k) 0 =
      concat (map (\<lambda>r. [reverse_bit (int r + 1)] @ map (\<lambda>i. px ! (r * k + i)) [0..<k] @ [0]) [0..<h])"
    by simp
  have first: "show_display s bus =
           (s\<lparr>priv_buf := 0, priv_vcom := \<not> priv_vcom s\<rparr>,
            bus\<lparr>wire := wire bus @ [command_byte (priv_vcom s)] @
               concat (map (\<lambda>r. [reverse_bit (int r + 1)] @
                                 map (\<lambda>i. px ! (r * k + i)) [0..<k] @ [0])
                           [0..<h]) @ [0]\<rparr>,
            None)"
    using assms(1) frames
    by (simp add: show_display_accepting [OF assms(4)] wk flip: h_def px_def)
  have second: "length (wire (fst (snd (show_display s bus)))) = length (wire bus) + 1 + h * (1 + k + 1) + 1"
    unfolding first by (simp add: length_concat comp_def sum_list_triv)
  have third: "wire (fst (snd (show_display s bus))) = wire bus @ [command_byte (priv_vcom s), 0x80, 0x80, 0x00, 0x00]"
    if "width s = 8" "height s = 1" "px = [0x80]"
  proof -
    have "k = 1" "h = 1"
      using that by (simp_all add: k_def h_def)
    moreover have "reverse_bit 1 = 0x80"
      by (simp add: reverse_bit_def numeral_eq_Suc)
    ultimately show ?thesis
      unfolding first using that(3) by simp
  qed
  show ?thesis
    using first second third unfolding k_def h_def px_def by blast
qed

text \<open>Witness for C1: the 8 by 1 panel with row byte \<open>0x80\<close>, toggle bit true.\<close>

theorem show_frame_bytes_witness:
  "1 \<le> height (panel 8 1 [0x80]) \<and> 0 \<le> width (panel 8 1 [0x80])
   \<and> length (heap (panel 8 1 [0x80]) (buffer (panel 8 1 [0x80]))) = nat (width (panel 8 1 [0x80]) div 8 * height (panel 8 1 [0x80]))
   \<and> accepts idle_bus = None
   \<and> wire (fst (snd (show_display (panel 8 1 [0x80]) idle_bus))) = [0xC0, 0x80, 0x80, 0x00, 0x00]
   \<and> length (wire (fst (snd (show_display (panel 8 1 [0x80]) idle_bus)))) = 5"
proof -
  have h: "1 \<le> height (panel 8 1 [0x80])" "0 \<le> width (panel 8 1 [0x80])"
    "length (heap (panel 8 1 [0x80]) (buffer (panel 8 1 [0x80]))) = nat (width (panel 8 1 [0x80]) div 8 * height (panel 8 1 [0x80]))"
    "accepts idle_bus = None"
    by (simp_all add: panel_def idle_bus_def accepts_def)
  have "width (panel 8 1 [0x80]) = 8 \<and> height (panel 8 1 [0x80]) = 1 \<and> heap (panel 8 1 [0x80]) (buffer (panel 8 1 [0x80])) = [0x80]"
    by (simp add: panel_def)
  moreover have "reverse_bit 1 = 0x80"
    by (simp add: reverse_bit_def numeral_eq_Suc)
  ultimately show ?thesis
    using show_frame_bytes [OF h] h
    by (simp add: idle_bus_def command_byte_def panel_def)
qed

lemma spi_write_wire:
  "spi_write bus d = Inr bus' \<Longrightarrow> wire bus' = wire bus @ d"
  by (auto simp: spi_write_def split: option.splits nat.splits)

lemma spi_write_alive:
  "accepts bus \<noteq> Some 0 \<Longrightarrow> \<exists>bus'. spi_write bus d = Inr bus'"
  by (auto simp: spi_write_def accepts_alive split: option.splits nat.splits)

lemma show_lines_wire:
  "\<exists>ys. wire (fst (snd (show_lines ls px ll sf b bus))) = wire bus @ ys"
proof (induction ls arbitrary: sf b bus)
  case Nil
  then show ?case by simp
next
  case (Cons l ls)
  show ?case
  proof (cases "spi_write bus [reverse_bit (l + 1)]")
    case (Inl e)
    then show ?thesis by simp
  next
    case bus1: (Inr bus1)
    show ?thesis
    proof (cases "spi_write bus1 (py_slice px sf (sf + ll))")
      case (Inl e)
      with bus1 show ?thesis by (simp add: spi_write_wire [OF bus1])
    next
      case bus2: (Inr bus2)
      show ?thesis
      proof (cases "spi_write bus2 [0]")
        case (Inl e)
        with bus1 bus2 show ?thesis
          by (simp add: spi_write_wire [OF bus1] spi_write_wire [OF bus2])
      next
        case bus3: (Inr bus3)
        obtain ys where "wire (fst (snd (show_lines ls px ll (sf + ll) 0 bus3))) = wire bus3 @ ys"
          using Cons.IH by blast
        with bus1 bus2 bus3 show ?thesis
          by (simp add: spi_write_wire [OF bus1] spi_write_wire [OF bus2] spi_write_wire [OF bus3])
      qed
    qed
  qed
qed

lemma show_display_first_byte:
  assumes "accepts bus \<noteq> Some 0"
  shows "\<exists>rest. wire (fst (snd (show_display s bus))) = wire bus @ command_byte (priv_vcom s) # rest"
proof -
  have enters: "enters bus"
    using assms by (simp add: accepts_alive)
  obtain bus1 where bus1: "spi_write bus [command_byte (priv_vcom s)] = Inr bus1"
    using spi_write_alive [OF assms] by blast
  define r where "r = show_lines (map int [0..<nat (height s)]) (heap s (buffer s)) (width s div 8) 0
      (command_byte (priv_vcom s)) bus1"
  obtain ys where ys: "wire (fst (snd r)) = wire bus1 @ ys"
    unfolding r_def using show_lines_wire by blast
  obtain b bus2 e where r: "r = (b, bus2, e)"
    by (cases r) auto
  have w2: "wire bus2 = wire bus @ command_byte (priv_vcom s) # ys"
    using ys r spi_write_wire [OF bus1] by simp
  show ?thesis
  proof (cases e)
    case (Some err)
    then show ?thesis
      using enters bus1 r w2 by (simp add: show_display_def Let_def flip: r_def)
  next
    case None
    show ?thesis
    proof (cases "spi_write bus2 [b]")
      case (Inl err)
      then show ?thesis
        using enters bus1 r w2 None by (simp add: show_display_def Let_def flip: r_def)
    next
      case (Inr bus3)
      then show ?thesis
        using enters bus1 r w2 None spi_write_wire [OF Inr]
        by (simp add: show_display_def Let_def flip: r_def)
    qed
  qed
qed

lemma show_display_vcom:
  "priv_vcom (fst (show_display s bus)) = (if enters bus then \<not> priv_vcom s else priv_vcom s)"
  by (simp add: show_display_def Let_def split: sum.splits prod.splits option.splits)

lemma show_display_not_entered:
  "\<not> enters bus \<Longrightarrow> show_display s bus = (s, bus, Some TransportFailure)"
  by (simp add: show_display_def)

lemma refreshes_vcom:
  "priv_vcom (refreshes s buses) = (priv_vcom s = even (length (filter enters buses)))"
  unfolding refreshes_def
  by (induction buses arbitrary: s) (auto simp: show_display_vcom)

lemma command_byte_values: "command_byte True = 0xC0" "command_byte False = 0x80"
  by (simp_all add: command_byte_def)

lemma reverse_bit_command: "reverse_bit 0xC0 = 0x03" "reverse_bit 0x80 = 0x01"
  by (simp_all add: reverse_bit_def numeral_eq_Suc)

text \<open>
  C2 (amended). On every \<^verbatim>\<open>show\<close> whose first write the bus accepts, the first byte put
  on the wire is the command byte \<open>0x80\<close>, with bit \<open>0x40\<close> set exactly when the toggle
  bit is true, as it is: it does not go through \<open>reverse_bit\<close>, and its reversal is a
  different byte.
\<close>

theorem command_byte_sent_unreversed:
  "accepts bus \<noteq> Some 0 \<Longrightarrow>
     take (Suc (length (wire bus))) (wire (fst (snd (show_display s bus)))) =
       wire bus @ [0x80 OR (if priv_vcom s then 0x40 else 0x00)]
     \<and> reverse_bit (0x80 OR (if priv_vcom s then 0x40 else 0x00))
          \<noteq> 0x80 OR (if priv_vcom s then 0x40 else 0x00)"
proof -
  assume "accepts bus \<noteq> Some 0"
  then obtain rest where "wire (fst (snd (show_display s bus))) = wire bus @ command_byte (priv_vcom s) # rest"
    using show_display_first_byte by blast
  then show ?thesis
    by (cases "priv_vcom s") (simp_all add: command_byte_values reverse_bit_command)
qed

text \<open>Witness for C2 (amended): a fresh 8 by 1 panel on an accepting bus sends \<open>0xC0\<close> first.\<close>

theorem command_byte_sent_unreversed_witness:
  "accepts idle_bus \<noteq> Some 0
   \<and> take (Suc (length (wire idle_bus))) (wire (fst (snd (show_display (panel 8 1 [0x80]) idle_bus)))) = [0xC0]"
  using command_byte_sent_unreversed [of idle_bus "panel 8 1 [0x80]"]
  by (simp add: idle_bus_def panel_def accepts_def)

text \<open>
  Counterexample to C2 as stated: the first \<^verbatim>\<open>show\<close> of a fresh 8 by 1 panel sends
  \<open>0xC0\<close>, while the command byte passed through \<open>reverse_bit\<close> would be \<open>0x03\<close>.
\<close>

theorem command_byte_reversed_counterexample:
  "init_display 8 1 = Inr (panel 8 1 [0x00])
   \<and> hd (wire (fst (snd (show_display (panel 8 1 [0x00]) idle_bus)))) = 0xC0
   \<and> reverse_bit (command_byte (priv_vcom (panel 8 1 [0x00]))) = 0x03
   \<and> hd (wire (fst (snd (show_display (panel 8 1 [0x00]) idle_bus))))
        \<noteq> reverse_bit (command_byte (priv_vcom (panel 8 1 [0x00])))"
proof -
  have "accepts idle_bus = None"
    by (simp add: idle_bus_def accepts_def)
  then have "wire (fst (snd (show_display (panel 8 1 [0x00]) idle_bus))) =
      wire idle_bus @ command_byte True # line_frames (map int [0..<1]) [0x00] 1 0 @ [0]"
    by (simp add: show_display_accepting panel_def)
  then have "hd (wire (fst (snd (show_display (panel 8 1 [0x00]) idle_bus)))) = 0xC0"
    by (simp add: idle_bus_def command_byte_values)
  moreover have "init_display 8 1 = Inr (panel 8 1 [0x00])"
    using init_display_panel [of 8 1] by simp
  moreover have "reverse_bit (command_byte (priv_vcom (panel 8 1 [0x00]))) = 0x03"
    by (simp add: panel_def command_byte_values reverse_bit_command)
  ultimately show ?thesis by simp
qed

text \<open>
  C3 (amended). The toggle bit is true after construction. A \<^verbatim>\<open>show\<close> that enters its
  \<^verbatim>\<open>with\<close> block flips it exactly once, whatever the bus does afterwards (the flip
  comes before the first write); a \<^verbatim>\<open>show\<close> that fails to enter the block leaves the
  whole state as it was. So after any calls the toggle bit is true exactly when the
  number of calls that entered the block is even, and the command byte of the next call
  carries bit \<open>0x40\<close> exactly then: set on the first such call, clear on the second,
  set on the third.
\<close>

theorem vcom_alternates_over_entered_calls:
  "init_display w h = Inr s0 \<Longrightarrow>
     priv_vcom s0
     \<and> (\<forall>s bus. enters bus \<longrightarrow> priv_vcom (fst (show_display s bus)) = (\<not> priv_vcom s))
     \<and> (\<forall>s bus. \<not> enters bus \<longrightarrow> show_display s bus = (s, bus, Some TransportFailure))
     \<and> (\<forall>buses. priv_vcom (refreshes s0 buses) = even (length (filter enters buses)))
     \<and> (\<forall>buses bus. accepts bus \<noteq> Some 0 \<longrightarrow>
          take (Suc (length (wire bus))) (wire (fst (snd (show_display (refreshes s0 buses) bus)))) =
            wire bus @ [if even (length (filter enters buses)) then 0x80 OR 0x40 else 0x80])"
proof -
  assume init: "init_display w h = Inr s0"
  then have v0: "priv_vcom s0"
    by (auto simp: init_display_def split: if_splits)
  have flip: "\<forall>s bus. enters bus \<longrightarrow> priv_vcom (fst (show_display s bus)) = (\<not> priv_vcom s)"
    by (simp add: show_display_vcom)
  have keep: "\<forall>s bus. \<not> enters bus \<longrightarrow> show_display s bus = (s, bus, Some TransportFailure)"
    by (simp add: show_display_not_entered)
  have alt: "priv_vcom (refreshes s0 buses) = even (length (filter enters buses))" for buses
    using v0 by (simp add: refreshes_vcom)
  have sent: "take (Suc (length (wire bus))) (wire (fst (snd (show_display (refreshes s0 buses) bus)))) =
            wire bus @ [if even (length (filter enters buses)) then 0x80 OR 0x40 else 0x80]"
    if alive: "accepts bus \<noteq> Some 0" for buses bus
  proof -
    obtain rest where "wire (fst (snd (show_display (refreshes s0 buses) bus))) =
        wire bus @ command_byte (priv_vcom (refreshes s0 buses)) # rest"
      using show_display_first_byte [OF alive] by blast
    then show ?thesis
      by (simp add: alt command_byte_def)
  qed
  have alt': "\<forall>buses. priv_vcom (refreshes s0 buses) = even (length (filter enters buses))"
    using alt by (intro allI)
  have sent': "\<forall>buses bus. accepts bus \<noteq> Some 0 \<longrightarrow>
          take (Suc (length (wire bus))) (wire (fst (snd (show_display (refreshes s0 buses) bus)))) =
            wire bus @ [if even (length (filter enters buses)) then 0x80 OR 0x40 else 0x80]"
    using sent by (intro allI impI)
  show ?thesis
    by (rule conjI [OF v0 conjI [OF flip conjI [OF keep conjI [OF alt' sent']]]])
qed

text \<open>
  Witness for C3 (amended): an 8 by 1 panel, with refreshes on a bus whose first write
  raises, on a bus whose block cannot be entered and on a bus that accepts everything.
\<close>

theorem vcom_alternates_over_entered_calls_witness:
  "init_display 8 1 = Inr (panel 8 1 [0x00])
   \<and> accepts idle_bus \<noteq> Some 0 \<and> enters dead_bus \<and> \<not> enters absent_bus
   \<and> priv_vcom (panel 8 1 [0x00])
   \<and> \<not> priv_vcom (fst (show_display (panel 8 1 [0x00]) dead_bus))
   \<and> priv_vcom (fst (show_display (panel 8 1 [0x00]) absent_bus))
   \<and> \<not> priv_vcom (refreshes (panel 8 1 [0x00]) [dead_bus, absent_bus])
   \<and> priv_vcom (refreshes (panel 8 1 [0x00]) [idle_bus, absent_bus, dead_bus])
   \<and> take 1 (wire (fst (snd (show_display (refreshes (panel 8 1 [0x00]) []) idle_bus)))) = [0xC0]
   \<and> take 1 (wire (fst (snd (show_display (refreshes (panel 8 1 [0x00]) [dead_bus]) idle_bus)))) = [0x80]
   \<and> take 1 (wire (fst (snd (show_display (refreshes (panel 8 1 [0x00]) [idle_bus, absent_bus, dead_bus]) idle_bus)))) = [0xC0]"
proof -
  have init: "init_display 8 1 = Inr (panel 8 1 [0x00])"
    using init_display_panel [of 8 1] by simp
  have alive: "accepts idle_bus \<noteq> Some 0" and w: "wire idle_bus = []"
    and e: "enters idle_bus" "enters dead_bus" "\<not> enters absent_bus"
    by (simp_all add: idle_bus_def dead_bus_def absent_bus_def accepts_def)
  note t = vcom_alternates_over_entered_calls [OF init]
  note t1 = t [THEN conjunct1]
  note c2 = t [THEN conjunct2, THEN conjunct1, rule_format]
  note c3 = t [THEN conjunct2, THEN conjunct2, THEN conjunct1, rule_format]
  note t4 = t [THEN conjunct2, THEN conjunct2, THEN conjunct2, THEN conjunct1, rule_format]
  note c5 = t [THEN conjunct2, THEN conjunct2, THEN conjunct2, THEN conjunct2, rule_format]
  note t2 = c2 [OF e(2)]
  note t3 = c3 [OF e(3)]
  note t5 = c5 [OF alive]
  show ?thesis
    using init alive e t1 t2 [of "panel 8 1 [0x00]"] t3 [of "panel 8 1 [0x00]"]
      t4 [of "[dead_bus, absent_bus]"] t4 [of "[idle_bus, absent_bus, dead_bus]"]
      t5 [of "[]"] t5 [of "[dead_bus]"] t5 [of "[idle_bus, absent_bus, dead_bus]"]
    by (simp add: w)
qed

text \<open>
  Counterexample to C3 as stated: a \<^verbatim>\<open>show\<close> whose \<^verbatim>\<open>with\<close> block cannot be entered
  does not flip the toggle bit, so the refresh after it, the second one after
  construction, sends \<open>0xC0\<close> again, with bit \<open>0x40\<close> set.
\<close>

theorem vcom_kept_when_enter_fails_counterexample:
  "init_display 8 1 = Inr (panel 8 1 [0x00])
   \<and> show_display (panel 8 1 [0x00]) absent_bus = (panel 8 1 [0x00], absent_bus, Some TransportFailure)
   \<and> priv_vcom (fst (show_display (panel 8 1 [0x00]) absent_bus)) = priv_vcom (panel 8 1 [0x00])
   \<and> refreshes (panel 8 1 [0x00]) [absent_bus] = panel 8 1 [0x00]
   \<and> take 1 (wire (fst (snd (show_display (refreshes (panel 8 1 [0x00]) [absent_bus]) idle_bus)))) = [0xC0]"
proof -
  have init: "init_display 8 1 = Inr (panel 8 1 [0x00])"
    using init_display_panel [of 8 1] by simp
  have stay: "show_display (panel 8 1 [0x00]) absent_bus = (panel 8 1 [0x00], absent_bus, Some TransportFailure)"
    by (simp add: show_display_def absent_bus_def)
  then have same: "refreshes (panel 8 1 [0x00]) [absent_bus] = panel 8 1 [0x00]"
    by (simp add: refreshes_def)
  have "accepts idle_bus \<noteq> Some 0"
    by (simp add: idle_bus_def accepts_def)
  then obtain rest where "wire (fst (snd (show_display (panel 8 1 [0x00]) idle_bus))) =
      wire idle_bus @ command_byte (priv_vcom (panel 8 1 [0x00])) # rest"
    using show_display_first_byte by blast
  then have "take 1 (wire (fst (snd (show_display (panel 8 1 [0x00]) idle_bus)))) = [0xC0]"
    by (simp add: idle_bus_def panel_def command_byte_values)
  with init stay same show ?thesis
    by simp
qed

text \<open>
  C4. On a panel of height \<open>0\<close> the loop body never runs, so \<^verbatim>\<open>self._buf\<close> still holds
  the command byte when the last write sends it: the two bytes on the wire are the
  command byte twice, not the command byte and \<open>0x00\<close>.
\<close>

theorem show_zero_height_sends_command_twice:
  "init_display 8 0 = Inr (panel 8 0 [])
   \<and> show_display (panel 8 0 []) idle_bus =
       ((panel 8 0 [])\<lparr>priv_buf := 0xC0, priv_vcom := False\<rparr>, idle_bus\<lparr>wire := [0xC0, 0xC0]\<rparr>, None)
   \<and> wire (fst (snd (show_display (panel 8 0 []) idle_bus))) \<noteq> [0xC0, 0x00]"
proof -
  have "accepts idle_bus = None"
    by (simp add: idle_bus_def accepts_def)
  then have "show_display (panel 8 0 []) idle_bus =
       ((panel 8 0 [])\<lparr>priv_buf := 0xC0, priv_vcom := False\<rparr>, idle_bus\<lparr>wire := [0xC0, 0xC0]\<rparr>, None)"
    by (simp add: show_display_accepting) (simp add: panel_def idle_bus_def command_byte_values)
  moreover have "init_display 8 0 = Inr (panel 8 0 [])"
    using init_display_panel [of 8 0] by simp
  ultimately show ?thesis by simp
qed

text \<open>
  C9. \<^verbatim>\<open>show\<close> leaves the store, and with it every byte of the pixel array, as it was;
  of the whole state only the toggle bit and the byte of \<^verbatim>\<open>self._buf\<close> can differ
  afterwards, whether the block is entered or not and whether the bus accepts the
  writes or not.
\<close>

theorem show_leaves_pixels:
  "heap (fst (show_display s bus)) = heap s
   \<and> buffer (fst (show_display s bus)) = buffer s
   \<and> heap (fst (show_display s bus)) (buffer (fst (show_display s bus))) = heap s (buffer s)
   \<and> fst (show_display s bus) =
       s\<lparr>priv_buf := priv_buf (fst (show_display s bus)),
         priv_vcom := priv_vcom (fst (show_display s bus))\<rparr>"
proof -
  have "fst (show_display s bus) =
       s\<lparr>priv_buf := priv_buf (fst (show_display s bus)),
         priv_vcom := priv_vcom (fst (show_display s bus))\<rparr>"
    by (rule show_display_state)
  moreover have "heap (fst (show_display s bus)) = heap s" "buffer (fst (show_display s bus)) = buffer s"
    by (simp_all add: show_display_def Let_def split: sum.splits prod.splits option.splits)
  ultimately show ?thesis by simp
qed

section \<open>Setting single pixels\<close>

lemma set_bit_byte:
  fixes b :: int
  shows "(b AND NOT (2 ^ k)) OR 2 ^ k = b OR 2 ^ k"
  by (rule bit_eqI) (auto simp: bit_simps)

lemma bit_set_bit_byte:
  fixes b :: int
  shows "bit (b OR 2 ^ k) n \<longleftrightarrow> bit b n \<or> n = k"
  by (auto simp: bit_simps)

lemma pixel_offset: "nat ((7 - int x) AND 7) = 7 - x mod 8"
proof -
  have "(7 - int x) AND 7 = (7 - int x) AND mask 3"
    by (simp add: mask_eq_exp_minus_1)
  also have "\<dots> = (7 - int x) mod 8"
    by (simp flip: take_bit_eq_mask add: take_bit_eq_mod)
  also have "\<dots> = 7 - int (x mod 8)"
  proof -
    have "x = x mod 8 + 8 * (x div 8)"
      by simp
    then have "int x = int (x mod 8 + 8 * (x div 8))"
      by (rule arg_cong)
    then have "int x = int (x mod 8) + 8 * int (x div 8)"
      by (simp only: of_nat_add of_nat_mult of_nat_numeral)
    then have "7 - int x = (7 - int (x mod 8)) + 8 * (- int (x div 8))"
      by simp
    then have "(7 - int x) mod 8 = (7 - int (x mod 8)) mod 8"
      by (simp only: mod_mult_self2)
    moreover have "0 \<le> 7 - int (x mod 8)" "7 - int (x mod 8) < 8"
      by simp_all
    ultimately show ?thesis
      by simp
  qed
  finally show ?thesis
    by simp
qed

lemma pixel_index: "(int y * int (8 * K) + int x) div 8 = int (y * K + x div 8)"
proof -
  have "(y * (8 * K) + x) div 8 = y * K + x div 8"
    by simp
  then have "int ((y * (8 * K) + x) div 8) = int (y * K + x div 8)"
    by simp
  then show ?thesis
    by (simp add: zdiv_int)
qed

lemma pixel_index_bound: "x < 8 * (K::nat) \<Longrightarrow> y < H \<Longrightarrow> y * K + x div 8 < K * H"
proof -
  assume x: "x < 8 * K" and y: "y < H"
  then have "x div 8 < K" by simp
  then have "y * K + x div 8 < Suc y * K" by simp
  also have "\<dots> \<le> H * K"
    using y by (intro mult_le_mono1) simp
  finally show ?thesis by (simp add: mult.commute)
qed

lemma pixel_lit:
  assumes "rotation s = 0" "width s = int (8 * K)" "stride s = width s" "height s = int H"
    and "length (heap s (buf s)) = K * H" and "x < 8 * K" and "y < H"
  shows "pixel s (int x) (int y) (Mono 1) =
    (s\<lparr>heap := (heap s)(buf s := (heap s (buf s))[y * K + x div 8 :=
        (heap s (buf s) ! (y * K + x div 8)) OR 2 ^ (7 - x mod 8)])\<rparr>, None)"
proof -
  have idx: "(int y * stride s + int x) div 8 = int (y * K + x div 8)"
    using assms(2,3) pixel_index [of y K x] by simp
  have bound: "y * K + x div 8 < K * H"
    using assms(6,7) by (rule pixel_index_bound)
  show ?thesis
    using assms(1,2,4,5,6,7) bound
    by (simp add: pixel_def rotated_def set_pixel_def Let_def idx pixel_offset set_bit_byte
        del: of_nat_add of_nat_mult)
qed

lemma product_map:
  "List.product (map f xs) (map g ys) = map (\<lambda>(x, y). (f x, g y)) (List.product xs ys)"
  by (induction xs) (simp_all add: comp_def)

lemma pixel_branch_mono:
  "mode img = ''1'' \<Longrightarrow>
     pixel_branch img x y = (if truthy (load img (x, y)) then Lit_branch else Skip_branch)"
  by (simp add: pixel_branch_def)

lemma image_pixels_lit:
  assumes "mode img = ''1''"
    and "rotation s = 0" "width s = int (8 * K)" "stride s = width s" "height s = int H"
    and "length (heap s (buf s)) = K * H"
    and "\<forall>(x, y) \<in> set ps. x < 8 * K \<and> y < H"
  shows "\<exists>bs. image_pixels img (map (\<lambda>(x, y). (int x, int y)) ps) s =
              (s\<lparr>heap := (heap s)(buf s := bs)\<rparr>, None)
          \<and> length bs = K * H
          \<and> (\<forall>j<K * H. \<forall>n. bit (bs ! j) n \<longleftrightarrow>
                bit (heap s (buf s) ! j) n
                \<or> (\<exists>(x, y) \<in> set ps. truthy (load img (int x, int y))
                      \<and> y * K + x div 8 = j \<and> 7 - x mod 8 = n))"
  using assms(2-)
proof (induction ps arbitrary: s)
  case Nil
  have "s\<lparr>heap := (heap s)(buf s := heap s (buf s))\<rparr> = s"
    by simp
  with Nil show ?case
    by (intro exI [of _ "heap s (buf s)"]) simp
next
  case (Cons p ps)
  obtain x y where p: "p = (x, y)"
    by (cases p)
  have xy: "x < 8 * K" "y < H" and rest: "\<forall>(x, y) \<in> set ps. x < 8 * K \<and> y < H"
    using Cons.prems(6) by (simp_all add: p)
  define bs0 where "bs0 = heap s (buf s)"
  show ?case
  proof (cases "truthy (load img (int x, int y))")
    case False
    obtain bs where bs: "image_pixels img (map (\<lambda>(x, y). (int x, int y)) ps) s =
              (s\<lparr>heap := (heap s)(buf s := bs)\<rparr>, None)" "length bs = K * H"
        "\<forall>j<K * H. \<forall>n. bit (bs ! j) n \<longleftrightarrow> bit (heap s (buf s) ! j) n
                \<or> (\<exists>(x, y) \<in> set ps. truthy (load img (int x, int y))
                      \<and> y * K + x div 8 = j \<and> 7 - x mod 8 = n)"
      using Cons.IH [OF Cons.prems(1-5) rest] by blast
    have "image_pixels img (map (\<lambda>(x, y). (int x, int y)) (p # ps)) s =
              (s\<lparr>heap := (heap s)(buf s := bs)\<rparr>, None)"
      using False bs(1) by (simp add: p pixel_branch_mono [OF assms(1)])
    moreover have "\<forall>j<K * H. \<forall>n. bit (bs ! j) n \<longleftrightarrow> bit (heap s (buf s) ! j) n
                \<or> (\<exists>(x, y) \<in> set (p # ps). truthy (load img (int x, int y))
                      \<and> y * K + x div 8 = j \<and> 7 - x mod 8 = n)"
      using False bs(3) by (simp add: p)
    ultimately show ?thesis
      using bs(2) by blast
  next
    case True
    define j0 where "j0 = y * K + x div 8"
    define bs1 where "bs1 = bs0[j0 := (bs0 ! j0) OR 2 ^ (7 - x mod 8)]"
    define s1 where "s1 = s\<lparr>heap := (heap s)(buf s := bs1)\<rparr>"
    have step: "pixel s (int x) (int y) (Mono 1) = (s1, None)"
      unfolding s1_def bs1_def j0_def bs0_def
      by (rule pixel_lit [OF Cons.prems(1-5) xy])
    have j0: "j0 < K * H"
      unfolding j0_def using xy by (rule pixel_index_bound)
    have s1: "rotation s1 = 0" "width s1 = int (8 * K)" "stride s1 = width s1" "height s1 = int H"
      "length (heap s1 (buf s1)) = K * H" "buf s1 = buf s" "heap s1 (buf s1) = bs1"
      using Cons.prems(1-5) by (simp_all add: s1_def bs1_def bs0_def)
    obtain bs where bs: "image_pixels img (map (\<lambda>(x, y). (int x, int y)) ps) s1 =
              (s1\<lparr>heap := (heap s1)(buf s1 := bs)\<rparr>, None)" "length bs = K * H"
        "\<forall>j<K * H. \<forall>n. bit (bs ! j) n \<longleftrightarrow> bit (heap s1 (buf s1) ! j) n
                \<or> (\<exists>(x, y) \<in> set ps. truthy (load img (int x, int y))
                      \<and> y * K + x div 8 = j \<and> 7 - x mod 8 = n)"
      using Cons.IH [OF s1(1-5) rest] by blast
    have same: "s1\<lparr>heap := (heap s1)(buf s1 := bs)\<rparr> = s\<lparr>heap := (heap s)(buf s := bs)\<rparr>"
      by (simp add: s1_def)
    have run: "image_pixels img (map (\<lambda>(x, y). (int x, int y)) (p # ps)) s =
              (s\<lparr>heap := (heap s)(buf s := bs)\<rparr>, None)"
      using True bs(1) step by (simp add: p pixel_branch_mono [OF assms(1)] same)
    have bit1: "bit (bs1 ! j) n \<longleftrightarrow> bit (bs0 ! j) n \<or> (j = j0 \<and> n = 7 - x mod 8)"
      if "j < K * H" for j n
    proof (cases "j = j0")
      case True
      then show ?thesis
        using j0 Cons.prems(5) by (simp add: bs1_def bs0_def bit_set_bit_byte)
    next
      case False
      then show ?thesis
        by (simp add: bs1_def)
    qed
    have bits: "\<forall>j<K * H. \<forall>n. bit (bs ! j) n \<longleftrightarrow> bit (heap s (buf s) ! j) n
                \<or> (\<exists>(x, y) \<in> set (p # ps). truthy (load img (int x, int y))
                      \<and> y * K + x div 8 = j \<and> 7 - x mod 8 = n)"
    proof (intro allI impI)
      fix j n
      assume j: "j < K * H"
      have "bit (bs ! j) n \<longleftrightarrow> bit (bs1 ! j) n
                \<or> (\<exists>(x, y) \<in> set ps. truthy (load img (int x, int y))
                      \<and> y * K + x div 8 = j \<and> 7 - x mod 8 = n)"
        using bs(3) j by (simp add: s1(7))
      then show "bit (bs ! j) n \<longleftrightarrow> bit (heap s (buf s) ! j) n
                \<or> (\<exists>(x, y) \<in> set (p # ps). truthy (load img (int x, int y))
                      \<and> y * K + x div 8 = j \<and> 7 - x mod 8 = n)"
        using True bit1 [OF j] by (auto simp: p j0_def bs0_def)
    qed
    show ?thesis
      using run bs(2) bits by blast
  qed
qed

section \<open>Packing rows\<close>

lemma concat_rows_length:
  "(\<And>y. y < H \<Longrightarrow> length (f y) = K) \<Longrightarrow> length (concat (map f [0..<H])) = K * H"
  by (induction H) simp_all

lemma concat_rows_nth:
  assumes "\<And>y. y < H \<Longrightarrow> length (f y) = K" and "j < K * H"
  shows "concat (map f [0..<H]) ! j = f (j div K) ! (j mod K)"
  using assms
proof (induction H)
  case 0
  then show ?case by simp
next
  case (Suc H)
  have len: "length (concat (map f [0..<H])) = K * H"
    using Suc.prems(1) by (intro concat_rows_length) simp
  have K: "0 < K"
    using Suc.prems(2) by (cases K) simp_all
  show ?case
  proof (cases "j < K * H")
    case True
    then show ?thesis
      using Suc.IH Suc.prems(1) by (simp add: nth_append len)
  next
    case False
    then have ge: "K * H \<le> j" by simp
    have lt: "j - K * H < K"
      using Suc.prems(2) ge by simp
    have "j = H * K + (j - K * H)"
      using ge by (simp add: mult.commute)
    then have "j div K = H + (j - K * H) div K" "j mod K = (j - K * H) mod K"
      using K by (metis div_mult_self3 less_numeral_extra(3), metis mod_mult_self3)
    then have "j div K = H" "j mod K = j - K * H"
      using lt by simp_all
    then show ?thesis
      using False by (simp add: nth_append len)
  qed
qed

lemma bit_pack_byte:
  assumes "length bits = 8"
  shows "bit (pack_byte bits) n \<longleftrightarrow> n < 8 \<and> bits ! (7 - n)"
proof -
  have "bit (pack_byte bits) n \<longleftrightarrow> n < 8 \<and> rev bits ! n"
    using assms by (simp add: pack_byte_def bit_horner_sum_bit_iff)
  moreover have "rev bits ! n = bits ! (7 - n)" if "n < 8"
    using that assms by (simp add: rev_nth)
  ultimately show ?thesis by auto
qed

lemma pack_row_length: "length (pack_row (map g [0..<8 * K])) = K"
  by (simp add: pack_row_def)

lemma pack_row_nth:
  assumes "m < K"
  shows "pack_row (map g [0..<8 * K]) ! m = pack_byte (map (\<lambda>i. g (8 * m + i)) [0..<8])"
proof -
  have "8 * m + 8 \<le> 8 * K"
    using assms by simp
  then have "take 8 (drop (8 * m) (map g [0..<8 * K])) = map (\<lambda>i. g (8 * m + i)) [0..<8]"
  proof (intro nth_equalityI)
    assume le: "8 * m + 8 \<le> 8 * K"
    then have "min (8 * K - 8 * m) 8 = 8"
      by linarith
    then show "length (take 8 (drop (8 * m) (map g [0..<8 * K]))) = length (map (\<lambda>i. g (8 * m + i)) [0..<8])"
      by simp
    fix i
    assume "i < length (take 8 (drop (8 * m) (map g [0..<8 * K])))"
    then have "i < 8"
      by simp
    then show "take 8 (drop (8 * m) (map g [0..<8 * K])) ! i = map (\<lambda>i. g (8 * m + i)) [0..<8] ! i"
      using le by simp
  qed
  then show ?thesis
    using assms by (simp add: pack_row_def)
qed

lemma packbits_rows:
  assumes "size_wh img = (int (8 * K), int H)"
  shows "packbits (asarray img) =
    concat (map (\<lambda>y. pack_row (map (\<lambda>x. truthy (load img (int x, int y))) [0..<8 * K])) [0..<H])"
  using assms by (simp add: packbits_def asarray_def comp_def del: of_nat_mult)

lemma packbits_length:
  assumes "size_wh img = (int (8 * K), int H)"
  shows "length (packbits (asarray img)) = K * H"
  unfolding packbits_rows [OF assms] by (rule concat_rows_length) (rule pack_row_length)

lemma bit_packbits:
  assumes "size_wh img = (int (8 * K), int H)" and "j < K * H"
  shows "bit (packbits (asarray img) ! j) n \<longleftrightarrow>
           n < 8 \<and> truthy (load img (int (8 * (j mod K) + (7 - n)), int (j div K)))"
proof -
  define row where "row y = pack_row (map (\<lambda>x. truthy (load img (int x, int y))) [0..<8 * K])" for y
  have pb: "packbits (asarray img) = concat (map row [0..<H])"
    unfolding packbits_rows [OF assms(1)] row_def [abs_def] ..
  have len: "length (row y) = K" for y
    unfolding row_def by (rule pack_row_length)
  have K: "0 < K"
    using assms(2) by (cases K) simp_all
  have "packbits (asarray img) ! j = row (j div K) ! (j mod K)"
    unfolding pb using len assms(2) by (intro concat_rows_nth)
  also have "\<dots> = pack_byte (map (\<lambda>i. truthy (load img (int (8 * (j mod K) + i), int (j div K)))) [0..<8])"
    unfolding row_def using K by (intro pack_row_nth) simp
  finally show ?thesis
    by (auto simp: bit_pack_byte)
qed

lemma pixel_of_bit:
  assumes "j < K * H"
  shows "(\<exists>(x, y) \<in> set (List.product [0..<8 * K] [0..<H]). L x y \<and> y * K + x div 8 = j \<and> 7 - x mod 8 = n)
     \<longleftrightarrow> n < 8 \<and> L (8 * (j mod K) + (7 - n)) (j div K)"
proof
  assume "\<exists>(x, y) \<in> set (List.product [0..<8 * K] [0..<H]). L x y \<and> y * K + x div 8 = j \<and> 7 - x mod 8 = n"
  then obtain x y where xy: "x < 8 * K" "y < H" "L x y" "y * K + x div 8 = j" "7 - x mod 8 = n"
    by auto
  have xd: "x div 8 < K"
    using xy(1) by simp
  have "j div K = y" "j mod K = x div 8"
    using xd xy(4) by (auto simp: mult.commute)
  moreover have "n < 8" "7 - n = x mod 8"
    using xy(5) by auto
  ultimately show "n < 8 \<and> L (8 * (j mod K) + (7 - n)) (j div K)"
    using xy(3) by simp
next
  assume r: "n < 8 \<and> L (8 * (j mod K) + (7 - n)) (j div K)"
  have K: "0 < K"
    using assms by (cases K) simp_all
  define x where "x = 8 * (j mod K) + (7 - n)"
  define y where "y = j div K"
  have "j mod K < K"
    using K by simp
  then have "x < 8 * K"
    unfolding x_def by linarith
  moreover have "y < H"
    unfolding y_def using assms K by (simp add: less_mult_imp_div_less mult.commute)
  moreover have "x div 8 = j mod K" "x mod 8 = 7 - n"
    unfolding x_def by simp_all
  then have "y * K + x div 8 = j" "7 - x mod 8 = n"
    using r by (simp_all add: y_def)
  moreover have "L x y"
    using r unfolding x_def y_def by blast
  ultimately have "(x, y) \<in> set (List.product [0..<8 * K] [0..<H])"
    "L x y \<and> y * K + x div 8 = j \<and> 7 - x mod 8 = n"
    by simp_all
  then show "\<exists>(x, y) \<in> set (List.product [0..<8 * K] [0..<H]). L x y \<and> y * K + x div 8 = j \<and> 7 - x mod 8 = n"
    by blast
qed

section \<open>The two paths of \<^verbatim>\<open>image\<close>\<close>

lemma image_pixels_all_lit:
  assumes "mode img = ''1''"
    and "rotation s = 0" "width s = int (8 * K)" "stride s = width s" "height s = int H"
    and "heap s (buf s) = replicate (K * H) 0"
  shows "\<exists>bs. image_pixels img (List.product (map int [0..<8 * K]) (map int [0..<H])) s =
              (s\<lparr>heap := (heap s)(buf s := bs)\<rparr>, None)
          \<and> bs = packbits (asarray (img\<lparr>size_wh := (int (8 * K), int H)\<rparr>))"
proof -
  let ?ps = "List.product [0..<8 * K] [0..<H]"
  let ?img = "img\<lparr>size_wh := (int (8 * K), int H)\<rparr>"
  have len0: "length (heap s (buf s)) = K * H"
    by (simp add: assms(6))
  have range: "\<forall>(x, y) \<in> set ?ps. x < 8 * K \<and> y < H"
    by simp
  obtain bs where run: "image_pixels img (map (\<lambda>(x, y). (int x, int y)) ?ps) s =
              (s\<lparr>heap := (heap s)(buf s := bs)\<rparr>, None)"
    and len: "length bs = K * H"
    and bits: "\<forall>j<K * H. \<forall>n. bit (bs ! j) n \<longleftrightarrow>
                bit (heap s (buf s) ! j) n
                \<or> (\<exists>(x, y) \<in> set ?ps. truthy (load img (int x, int y))
                      \<and> y * K + x div 8 = j \<and> 7 - x mod 8 = n)"
    using image_pixels_lit [OF assms(1-5) len0 range] by blast
  have size: "size_wh ?img = (int (8 * K), int H)"
    by simp
  have "bs = packbits (asarray ?img)"
  proof (rule nth_equalityI)
    show "length bs = length (packbits (asarray ?img))"
      by (simp only: len packbits_length [OF size])
    fix j
    assume "j < length bs"
    then have j: "j < K * H"
      by (simp only: len)
    show "bs ! j = packbits (asarray ?img) ! j"
    proof (rule bit_eqI)
      fix n
      have "bit (bs ! j) n \<longleftrightarrow>
          (\<exists>(x, y) \<in> set ?ps. truthy (load img (int x, int y)) \<and> y * K + x div 8 = j \<and> 7 - x mod 8 = n)"
        using bits j by (simp add: assms(6))
      also have "\<dots> \<longleftrightarrow> n < 8 \<and> truthy (load img (int (8 * (j mod K) + (7 - n)), int (j div K)))"
        by (rule pixel_of_bit [OF j, of "\<lambda>x y. truthy (load img (int x, int y))"])
      also have "\<dots> \<longleftrightarrow> bit (packbits (asarray ?img) ! j) n"
        using bit_packbits [OF size j, of n] by simp
      finally show "bit (bs ! j) n \<longleftrightarrow> bit (packbits (asarray ?img) ! j) n" .
    qed
  qed
  with run show ?thesis
    by (simp only: product_map) blast
qed

text \<open>
  On an unrotated panel whose width is a multiple of eight and whose two references name
  the same array of \<open>(width div 8) * height\<close> bytes, both paths of \<^verbatim>\<open>image\<close> succeed
  on every image that passes the checks and leave the same bytes in the pixel array.
\<close>

theorem image_paths_agree_unrotated:
  assumes "rotation s = 0" and "0 \<le> width s" and "width s mod 8 = 0" and "0 \<le> height s"
    and "stride s = width s" and "buf s = buffer s"
    and "length (heap s (buffer s)) = nat (width s div 8 * height s)"
    and "image_checks s img = None"
  shows "snd (image_display False s img) = None \<and> snd (image_display True s img) = None
    \<and> heap (fst (image_display False s img)) (buffer (fst (image_display False s img)))
        = heap (fst (image_display True s img)) (buffer (fst (image_display True s img)))"
proof -
  define K where "K = nat (width s div 8)"
  define H where "H = nat (height s)"
  have w: "width s = int (8 * K)"
    using assms(2,3) by (simp add: K_def) presburger
  have h: "height s = int H"
    using assms(4) by (simp add: H_def)
  have eff: "effective_size s = (width s, height s)"
    by (simp add: effective_size_def assms(1))
  have mode: "mode img = ''1''" and fs: "fst (size_wh img) = width s" "snd (size_wh img) = height s"
    using assms(8) by (auto simp: image_checks_def eff split: if_splits)
  have size: "size_wh img = (int (8 * K), int H)"
    using fs unfolding w h by (simp only: prod_eq_iff fst_conv snd_conv)
  have img: "img\<lparr>size_wh := (int (8 * K), int H)\<rparr> = img"
    using size by simp
  define s0 where "s0 = s\<lparr>heap := (heap s)(buf s := replicate (length (heap s (buf s))) 0)\<rparr>"
  have "width s div 8 * height s = int (K * H)"
    by (simp add: w h)
  then have "nat (width s div 8 * height s) = K * H"
    by (simp only: nat_int)
  then have len: "length (heap s (buf s)) = K * H"
    using assms(6,7) by simp
  have s0: "rotation s0 = 0" "width s0 = int (8 * K)" "stride s0 = width s0" "height s0 = int H"
    "heap s0 (buf s0) = replicate (K * H) 0" "buf s0 = buf s" "buffer s0 = buffer s"
    using assms(1,5) w h len by (simp_all add: s0_def)
  obtain bs where run: "image_pixels img (List.product (map int [0..<8 * K]) (map int [0..<H])) s0 =
              (s0\<lparr>heap := (heap s0)(buf s0 := bs)\<rparr>, None)"
    and bs: "bs = packbits (asarray img)"
    using image_pixels_all_lit [OF mode s0(1-5)] img by auto
  have nw: "nat (width s) = 8 * K" and nh: "nat (height s) = H"
    by (simp_all add: w h)
  have slow: "image_display False s img = (s0\<lparr>heap := (heap s0)(buf s0 := bs)\<rparr>, None)"
    using run by (simp add: image_display_def assms(8) eff nw nh flip: s0_def)
  have fast: "image_display True s img =
      (s\<lparr>buffer := next_addr s, heap := (heap s)(next_addr s := packbits (asarray img)),
         next_addr := Suc (next_addr s)\<rparr>, None)"
    by (simp add: image_display_def assms(8))
  show ?thesis
    unfolding slow fast using assms(6) s0(6,7) bs by simp
qed

section \<open>The lifetime of the pixel array\<close>

lemma set_pixel_frame:
  "buffer (fst (set_pixel s x y c)) = buffer s \<and> buf (fst (set_pixel s x y c)) = buf s
   \<and> next_addr (fst (set_pixel s x y c)) = next_addr s
   \<and> length (heap (fst (set_pixel s x y c)) a) = length (heap s a)"
  by (simp add: set_pixel_def Let_def)

lemma pixel_frame:
  "buffer (fst (pixel s x y c)) = buffer s \<and> buf (fst (pixel s x y c)) = buf s
   \<and> next_addr (fst (pixel s x y c)) = next_addr s
   \<and> length (heap (fst (pixel s x y c)) a) = length (heap s a)"
  by (simp add: pixel_def set_pixel_frame split: prod.splits)

lemma fill_frame:
  "buffer (fill s c) = buffer s \<and> buf (fill s c) = buf s
   \<and> next_addr (fill s c) = next_addr s
   \<and> length (heap (fill s c) a) = length (heap s a)"
  by (simp add: fill_def)

lemma image_pixels_frame:
  "buffer (fst (image_pixels img ps s)) = buffer s \<and> buf (fst (image_pixels img ps s)) = buf s
   \<and> next_addr (fst (image_pixels img ps s)) = next_addr s
   \<and> length (heap (fst (image_pixels img ps s)) a) = length (heap s a)"
proof (induction ps arbitrary: s)
  case Nil
  then show ?case by simp
next
  case (Cons p ps)
  obtain x y where p: "p = (x, y)"
    by (cases p)
  define r where "r = (case pixel_branch img x y of
              RGB_branch \<Rightarrow> pixel s x y (load img (x, y))
            | Lit_branch \<Rightarrow> pixel s x y (Mono 1)
            | Skip_branch \<Rightarrow> (s, None))"
  have r: "buffer (fst r) = buffer s \<and> buf (fst r) = buf s \<and> next_addr (fst r) = next_addr s
      \<and> length (heap (fst r) a) = length (heap s a)"
    unfolding r_def by (cases "pixel_branch img x y") (simp_all add: pixel_frame)
  obtain s' e where se: "r = (s', e)"
    by (cases r)
  show ?case
  proof (cases e)
    case None
    then have "image_pixels img (p # ps) s = image_pixels img ps s'"
      using se by (simp add: p flip: r_def)
    then show ?thesis
      using Cons.IH [of s'] r se by simp
  next
    case (Some err)
    then have "image_pixels img (p # ps) s = (s', Some err)"
      using se by (simp add: p flip: r_def)
    then show ?thesis
      using r se by simp
  qed
qed

lemma image_display_slow_frame:
  "buffer (fst (image_display False s img)) = buffer s
   \<and> buf (fst (image_display False s img)) = buf s
   \<and> next_addr (fst (image_display False s img)) = next_addr s
   \<and> length (heap (fst (image_display False s img)) a) = length (heap s a)"
  by (cases "image_checks s img") (simp_all add: image_display_def image_pixels_frame)

lemma image_display_fast:
  "image_checks s img = None \<Longrightarrow>
     image_display True s img =
       (s\<lparr>buffer := next_addr s, heap := (heap s)(next_addr s := packbits (asarray img)),
          next_addr := Suc (next_addr s)\<rparr>, None)"
  by (simp add: image_display_def)

lemma image_display_rejected:
  "image_checks s img = Some e \<Longrightarrow> image_display numpy s img = (s, Some e)"
  by (simp add: image_display_def)

lemma packbits_length_unrotated:
  assumes "image_checks s img = None" and "rotation s \<noteq> 1" and "rotation s \<noteq> 3"
    and "0 \<le> width s" and "width s mod 8 = 0" and "0 \<le> height s"
  shows "length (packbits (asarray img)) = nat (width s div 8 * height s)"
proof -
  define K where "K = nat (width s div 8)"
  define H where "H = nat (height s)"
  have w: "width s = int (8 * K)"
    using assms(4,5) by (simp add: K_def) presburger
  have h: "height s = int H"
    using assms(6) by (simp add: H_def)
  have eff: "effective_size s = (width s, height s)"
    by (simp add: effective_size_def assms(2,3))
  have fs: "fst (size_wh img) = width s" "snd (size_wh img) = height s"
    using assms(1) by (auto simp: image_checks_def eff split: if_splits)
  have size: "size_wh img = (int (8 * K), int H)"
    using fs unfolding w h by (simp only: prod_eq_iff fst_conv snd_conv)
  have "width s div 8 * height s = int (K * H)"
    by (simp add: w h)
  then have "nat (width s div 8 * height s) = K * H"
    by (simp only: nat_int)
  then show ?thesis
    by (simp only: packbits_length [OF size])
qed

lemma init_display_shape:
  "init_display w h = Inr s \<Longrightarrow>
     buf s = buffer s \<and> buffer s < next_addr s \<and> length (heap s (buffer s)) = nat ((w div 8) * h)"
  by (auto simp: init_display_def split: if_splits)

text \<open>
  What each operation does to the binding of \<^verbatim>\<open>self.buffer\<close>. \<^verbatim>\<open>__init__\<close> allocates
  the pixel array with \<open>(width div 8) * height\<close> bytes and both references name it.
  \<^verbatim>\<open>show\<close>, \<^verbatim>\<open>pixel\<close>, \<^verbatim>\<open>fill\<close> and the per-pixel path of \<^verbatim>\<open>image\<close> keep
  \<^verbatim>\<open>self.buffer\<close> bound to the same array and keep its length. The packing path of
  \<^verbatim>\<open>image\<close> leaves the state alone when the checks fail; when they pass it binds
  \<^verbatim>\<open>self.buffer\<close> to a new array, while \<^verbatim>\<open>self.buf\<close> and the old array stay as they
  were.
\<close>

theorem buffer_lifetime:
  "(init_display w h = Inr s0 \<longrightarrow>
      buf s0 = buffer s0 \<and> buffer s0 < next_addr s0
      \<and> length (heap s0 (buffer s0)) = nat ((w div 8) * h))
   \<and> (buffer (fst (show_display s bus)) = buffer s
      \<and> length (heap (fst (show_display s bus)) (buffer s)) = length (heap s (buffer s)))
   \<and> (buffer (fst (pixel s x y c)) = buffer s
      \<and> length (heap (fst (pixel s x y c)) (buffer s)) = length (heap s (buffer s)))
   \<and> (buffer (fill s v) = buffer s
      \<and> length (heap (fill s v) (buffer s)) = length (heap s (buffer s)))
   \<and> (buffer (fst (image_display False s img)) = buffer s
      \<and> length (heap (fst (image_display False s img)) (buffer s)) = length (heap s (buffer s)))
   \<and> (image_checks s img \<noteq> None \<longrightarrow> fst (image_display True s img) = s)
   \<and> (image_checks s img = None \<longrightarrow>
        buffer (fst (image_display True s img)) = next_addr s
        \<and> buf (fst (image_display True s img)) = buf s
        \<and> heap (fst (image_display True s img)) (next_addr s) = packbits (asarray img)
        \<and> (buffer s < next_addr s \<longrightarrow>
              buffer (fst (image_display True s img)) \<noteq> buffer s
              \<and> heap (fst (image_display True s img)) (buffer s) = heap s (buffer s))
        \<and> (rotation s \<noteq> 1 \<and> rotation s \<noteq> 3 \<and> 0 \<le> width s \<and> width s mod 8 = 0 \<and> 0 \<le> height s \<longrightarrow>
              length (heap (fst (image_display True s img)) (buffer (fst (image_display True s img))))
                = nat (width s div 8 * height s)))"
proof -
  have a: "init_display w h = Inr s0 \<longrightarrow>
      buf s0 = buffer s0 \<and> buffer s0 < next_addr s0
      \<and> length (heap s0 (buffer s0)) = nat ((w div 8) * h)"
    using init_display_shape by blast
  have b: "buffer (fst (show_display s bus)) = buffer s
      \<and> length (heap (fst (show_display s bus)) (buffer s)) = length (heap s (buffer s))"
    by (simp add: show_display_def Let_def split: sum.splits prod.splits option.splits)
  have c: "buffer (fst (pixel s x y c)) = buffer s
      \<and> length (heap (fst (pixel s x y c)) (buffer s)) = length (heap s (buffer s))"
    using pixel_frame by blast
  have d: "buffer (fill s v) = buffer s
      \<and> length (heap (fill s v) (buffer s)) = length (heap s (buffer s))"
    using fill_frame by blast
  have e: "buffer (fst (image_display False s img)) = buffer s
      \<and> length (heap (fst (image_display False s img)) (buffer s)) = length (heap s (buffer s))"
    using image_display_slow_frame by blast
  have f: "image_checks s img \<noteq> None \<longrightarrow> fst (image_display True s img) = s"
    using image_display_rejected by fastforce
  have g: "image_checks s img = None \<longrightarrow>
        buffer (fst (image_display True s img)) = next_addr s
        \<and> buf (fst (image_display True s img)) = buf s
        \<and> heap (fst (image_display True s img)) (next_addr s) = packbits (asarray img)
        \<and> (buffer s < next_addr s \<longrightarrow>
              buffer (fst (image_display True s img)) \<noteq> buffer s
              \<and> heap (fst (image_display True s img)) (buffer s) = heap s (buffer s))
        \<and> (rotation s \<noteq> 1 \<and> rotation s \<noteq> 3 \<and> 0 \<le> width s \<and> width s mod 8 = 0 \<and> 0 \<le> height s \<longrightarrow>
              length (heap (fst (image_display True s img)) (buffer (fst (image_display True s img))))
                = nat (width s div 8 * height s))"
  proof
    assume ok: "image_checks s img = None"
    show "buffer (fst (image_display True s img)) = next_addr s
        \<and> buf (fst (image_display True s img)) = buf s
        \<and> heap (fst (image_display True s img)) (next_addr s) = packbits (asarray img)
        \<and> (buffer s < next_addr s \<longrightarrow>
              buffer (fst (image_display True s img)) \<noteq> buffer s
              \<and> heap (fst (image_display True s img)) (buffer s) = heap s (buffer s))
        \<and> (rotation s \<noteq> 1 \<and> rotation s \<noteq> 3 \<and> 0 \<le> width s \<and> width s mod 8 = 0 \<and> 0 \<le> height s \<longrightarrow>
              length (heap (fst (image_display True s img)) (buffer (fst (image_display True s img))))
                = nat (width s div 8 * height s))"
      using packbits_length_unrotated [OF ok]
      by (simp add: image_display_fast [OF ok])
  qed
  show ?thesis
    by (rule conjI [OF a conjI [OF b conjI [OF c conjI [OF d conjI [OF e conjI [OF f g]]]]]])
qed

section \<open>Rejected images and rotated panels\<close>

text \<open>
  C6 (amended). For every image of mode \<^verbatim>\<open>"1"\<close> whose size differs from the
  rotation-adjusted size of the panel, \<^verbatim>\<open>image\<close> fails with the size error, on either
  path, and leaves the whole state, so every byte of the pixel array, as it was. An
  image of another mode fails with the mode error, which is checked first, whatever its
  size; the state is unchanged as well.
\<close>

theorem image_rejects_wrong_size:
  "fst (size_wh img) \<noteq> fst (effective_size s) \<or> snd (size_wh img) \<noteq> snd (effective_size s) \<Longrightarrow>
     image_display numpy s img =
       (s, Some (if mode img = ''1'' then SizeMismatch else InvalidFormat))
     \<and> heap (fst (image_display numpy s img)) (buffer (fst (image_display numpy s img)))
         = heap s (buffer s)"
  by (simp add: image_display_def image_checks_def)

text \<open>Witness for C6 (amended): the 8 by 1 image on a 16 by 2 panel, on both paths.\<close>

theorem image_rejects_wrong_size_witness:
  "fst (size_wh corner_dot) \<noteq> fst (effective_size (panel 16 2 [1, 2, 3, 4]))
   \<and> snd (size_wh corner_dot) \<noteq> snd (effective_size (panel 16 2 [1, 2, 3, 4]))
   \<and> image_display True (panel 16 2 [1, 2, 3, 4]) corner_dot = (panel 16 2 [1, 2, 3, 4], Some SizeMismatch)
   \<and> image_display False (panel 16 2 [1, 2, 3, 4]) corner_dot = (panel 16 2 [1, 2, 3, 4], Some SizeMismatch)
   \<and> heap (fst (image_display False (panel 16 2 [1, 2, 3, 4]) corner_dot))
        (buffer (fst (image_display False (panel 16 2 [1, 2, 3, 4]) corner_dot))) = [1, 2, 3, 4]"
proof -
  have h: "fst (size_wh corner_dot) \<noteq> fst (effective_size (panel 16 2 [1, 2, 3, 4]))
      \<or> snd (size_wh corner_dot) \<noteq> snd (effective_size (panel 16 2 [1, 2, 3, 4]))"
    by (simp add: corner_dot_def effective_size_def panel_def)
  have m: "mode corner_dot = ''1''"
    by (simp add: corner_dot_def)
  have p: "heap (panel 16 2 [1, 2, 3, 4]) (buffer (panel 16 2 [1, 2, 3, 4])) = [1, 2, 3, 4]"
    by (simp add: panel_def)
  have h': "fst (size_wh corner_dot) \<noteq> fst (effective_size (panel 16 2 [1, 2, 3, 4]))"
    "snd (size_wh corner_dot) \<noteq> snd (effective_size (panel 16 2 [1, 2, 3, 4]))"
    by (simp_all add: corner_dot_def effective_size_def panel_def)
  show ?thesis
    using h' image_rejects_wrong_size [OF h, of True] image_rejects_wrong_size [OF h, of False]
    by (simp add: m p)
qed

text \<open>
  Counterexample to C6 as stated: a 1 by 1 image of mode \<^verbatim>\<open>"RGB"\<close> on an 8 by 1 panel
  has the wrong size and fails with the mode error, not the size error.
\<close>

theorem image_wrong_size_counterexample:
  "fst (size_wh rgb_dot) \<noteq> fst (effective_size (panel 8 1 [0xFF]))
   \<and> image_display True (panel 8 1 [0xFF]) rgb_dot = (panel 8 1 [0xFF], Some InvalidFormat)
   \<and> image_display False (panel 8 1 [0xFF]) rgb_dot = (panel 8 1 [0xFF], Some InvalidFormat)
   \<and> snd (image_display True (panel 8 1 [0xFF]) rgb_dot) \<noteq> Some SizeMismatch
   \<and> snd (image_display False (panel 8 1 [0xFF]) rgb_dot) \<noteq> Some SizeMismatch"
  by (simp add: image_display_def image_checks_def rgb_dot_def effective_size_def panel_def)

text \<open>
  C10. \<^verbatim>\<open>image\<close> raises the mode error for every image whose mode is not \<^verbatim>\<open>"1"\<close>, on
  either path and before anything else; so whenever the checks pass, the mode is
  \<^verbatim>\<open>"1"\<close> and no pixel of the double loop takes the \<^verbatim>\<open>"RGB"\<close> branch.
\<close>

theorem rgb_branch_unreachable:
  "(mode img \<noteq> ''1'' \<longrightarrow> image_display numpy s img = (s, Some InvalidFormat))
   \<and> (image_checks s img = None \<longrightarrow> mode img = ''1'' \<and> pixel_branch img x y \<noteq> RGB_branch)"
  by (auto simp: image_display_def image_checks_def pixel_branch_def split: if_splits)

text \<open>
  Witness for C10: the \<^verbatim>\<open>"RGB"\<close> image is rejected, and the mode \<^verbatim>\<open>"1"\<close> image passes
  the checks and takes the lit branch at the origin.
\<close>

theorem rgb_branch_unreachable_witness:
  "mode rgb_dot \<noteq> ''1''
   \<and> image_display False (panel 8 1 [0xFF]) rgb_dot = (panel 8 1 [0xFF], Some InvalidFormat)
   \<and> image_checks (panel 8 1 [0xFF]) corner_dot = None
   \<and> mode corner_dot = ''1''
   \<and> pixel_branch corner_dot 0 0 = Lit_branch
   \<and> pixel_branch corner_dot 0 0 \<noteq> RGB_branch"
proof -
  have a: "mode rgb_dot \<noteq> ''1''"
    by (simp add: rgb_dot_def)
  have b: "image_checks (panel 8 1 [0xFF]) corner_dot = None"
    by (simp add: image_checks_def effective_size_def panel_def corner_dot_def)
  have c: "pixel_branch corner_dot 0 0 = Lit_branch"
    by (simp add: pixel_branch_def corner_dot_def)
  show ?thesis
    using a b c rgb_branch_unreachable [of rgb_dot False "panel 8 1 [0xFF]" 0 0]
      rgb_branch_unreachable [of corner_dot False "panel 8 1 [0xFF]" 0 0]
    by simp
qed

text \<open>
  C7. On a rotated panel the two paths of \<^verbatim>\<open>image\<close> leave different pixel arrays for a
  valid image. With rotation 2 on an 8 by 1 panel and the pixel at the origin lit, the
  per-pixel path stores \<open>0x01\<close> (the pixel mirrored) and the packing path \<open>0x80\<close>. With
  rotation 1 and the 1 by 8 image, the per-pixel path stores the one byte \<open>0x01\<close> and the
  packing path eight bytes.
\<close>

theorem image_paths_differ_when_rotated:
  "image_checks ((panel 8 1 [0x00])\<lparr>rotation := 2\<rparr>) corner_dot = None
   \<and> snd (image_display False ((panel 8 1 [0x00])\<lparr>rotation := 2\<rparr>) corner_dot) = None
   \<and> snd (image_display True ((panel 8 1 [0x00])\<lparr>rotation := 2\<rparr>) corner_dot) = None
   \<and> heap (fst (image_display False ((panel 8 1 [0x00])\<lparr>rotation := 2\<rparr>) corner_dot))
        (buffer (fst (image_display False ((panel 8 1 [0x00])\<lparr>rotation := 2\<rparr>) corner_dot))) = [0x01]
   \<and> heap (fst (image_display True ((panel 8 1 [0x00])\<lparr>rotation := 2\<rparr>) corner_dot))
        (buffer (fst (image_display True ((panel 8 1 [0x00])\<lparr>rotation := 2\<rparr>) corner_dot))) = [0x80]
   \<and> image_checks ((panel 8 1 [0x00])\<lparr>rotation := 1\<rparr>) column_dot = None
   \<and> snd (image_display False ((panel 8 1 [0x00])\<lparr>rotation := 1\<rparr>) column_dot) = None
   \<and> snd (image_display True ((panel 8 1 [0x00])\<lparr>rotation := 1\<rparr>) column_dot) = None
   \<and> heap (fst (image_display False ((panel 8 1 [0x00])\<lparr>rotation := 1\<rparr>) column_dot))
        (buffer (fst (image_display False ((panel 8 1 [0x00])\<lparr>rotation := 1\<rparr>) column_dot))) = [0x01]
   \<and> heap (fst (image_display True ((panel 8 1 [0x00])\<lparr>rotation := 1\<rparr>) column_dot))
        (buffer (fst (image_display True ((panel 8 1 [0x00])\<lparr>rotation := 1\<rparr>) column_dot)))
        = [0x80, 0x00, 0x00, 0x00, 0x00, 0x00, 0x00, 0x00]"
proof -
  have r2: "image_checks ((panel 8 1 [0x00])\<lparr>rotation := 2\<rparr>) corner_dot = None"
    "snd (image_display False ((panel 8 1 [0x00])\<lparr>rotation := 2\<rparr>) corner_dot) = None"
    "snd (image_display True ((panel 8 1 [0x00])\<lparr>rotation := 2\<rparr>) corner_dot) = None"
    "heap (fst (image_display False ((panel 8 1 [0x00])\<lparr>rotation := 2\<rparr>) corner_dot))
        (buffer (fst (image_display False ((panel 8 1 [0x00])\<lparr>rotation := 2\<rparr>) corner_dot))) = [0x01]"
    "heap (fst (image_display True ((panel 8 1 [0x00])\<lparr>rotation := 2\<rparr>) corner_dot))
        (buffer (fst (image_display True ((panel 8 1 [0x00])\<lparr>rotation := 2\<rparr>) corner_dot))) = [0x80]"
    by code_simp+
  have r1: "image_checks ((panel 8 1 [0x00])\<lparr>rotation := 1\<rparr>) column_dot = None"
    "snd (image_display False ((panel 8 1 [0x00])\<lparr>rotation := 1\<rparr>) column_dot) = None"
    "snd (image_display True ((panel 8 1 [0x00])\<lparr>rotation := 1\<rparr>) column_dot) = None"
    "heap (fst (image_display False ((panel 8 1 [0x00])\<lparr>rotation := 1\<rparr>) column_dot))
        (buffer (fst (image_display False ((panel 8 1 [0x00])\<lparr>rotation := 1\<rparr>) column_dot))) = [0x01]"
    "heap (fst (image_display True ((panel 8 1 [0x00])\<lparr>rotation := 1\<rparr>) column_dot))
        (buffer (fst (image_display True ((panel 8 1 [0x00])\<lparr>rotation := 1\<rparr>) column_dot)))
        = [0x80, 0x00, 0x00, 0x00, 0x00, 0x00, 0x00, 0x00]"
    by code_simp+
  from r2 r1 show ?thesis
    by (simp only: simp_thms)
qed

text \<open>
  Witness for C7: on the 8 by 1 panel with rotation 2 the pixel arrays left by the two
  paths are different lists.
\<close>

theorem image_paths_differ_when_rotated_witness:
  "heap (fst (image_display False ((panel 8 1 [0x00])\<lparr>rotation := 2\<rparr>) corner_dot))
        (buffer (fst (image_display False ((panel 8 1 [0x00])\<lparr>rotation := 2\<rparr>) corner_dot)))
   \<noteq> heap (fst (image_display True ((panel 8 1 [0x00])\<lparr>rotation := 2\<rparr>) corner_dot))
        (buffer (fst (image_display True ((panel 8 1 [0x00])\<lparr>rotation := 2\<rparr>) corner_dot)))"
  using image_paths_differ_when_rotated by simp

text \<open>The agreement of the two paths at work on an unrotated 8 by 1 panel.\<close>

theorem image_paths_agree_unrotated_witness:
  "rotation (panel 8 1 [0xFF]) = 0 \<and> 0 \<le> width (panel 8 1 [0xFF])
   \<and> width (panel 8 1 [0xFF]) mod 8 = 0 \<and> 0 \<le> height (panel 8 1 [0xFF])
   \<and> stride (panel 8 1 [0xFF]) = width (panel 8 1 [0xFF])
   \<and> buf (panel 8 1 [0xFF]) = buffer (panel 8 1 [0xFF])
   \<and> length (heap (panel 8 1 [0xFF]) (buffer (panel 8 1 [0xFF])))
        = nat (width (panel 8 1 [0xFF]) div 8 * height (panel 8 1 [0xFF]))
   \<and> image_checks (panel 8 1 [0xFF]) corner_dot = None
   \<and> heap (fst (image_display True (panel 8 1 [0xFF]) corner_dot))
        (buffer (fst (image_display True (panel 8 1 [0xFF]) corner_dot))) = [0x80]
   \<and> heap (fst (image_display False (panel 8 1 [0xFF]) corner_dot))
        (buffer (fst (image_display False (panel 8 1 [0xFF]) corner_dot))) = [0x80]"
proof -
  have h: "rotation (panel 8 1 [0xFF]) = 0" "0 \<le> width (panel 8 1 [0xFF])"
    "width (panel 8 1 [0xFF]) mod 8 = 0" "0 \<le> height (panel 8 1 [0xFF])"
    "stride (panel 8 1 [0xFF]) = width (panel 8 1 [0xFF])"
    "buf (panel 8 1 [0xFF]) = buffer (panel 8 1 [0xFF])"
    "length (heap (panel 8 1 [0xFF]) (buffer (panel 8 1 [0xFF])))
        = nat (width (panel 8 1 [0xFF]) div 8 * height (panel 8 1 [0xFF]))"
    "image_checks (panel 8 1 [0xFF]) corner_dot = None"
    by (simp_all add: panel_def image_checks_def effective_size_def corner_dot_def)
  have fast: "heap (fst (image_display True (panel 8 1 [0xFF]) corner_dot))
        (buffer (fst (image_display True (panel 8 1 [0xFF]) corner_dot))) = [0x80]"
    by code_simp
  show ?thesis
    using h fast image_paths_agree_unrotated [OF h]
    by simp
qed

text \<open>The bindings at work: the fresh 8 by 1 panel under each operation.\<close>

theorem buffer_lifetime_witness:
  "init_display 8 1 = Inr (panel 8 1 [0x00])
   \<and> buf (panel 8 1 [0x00]) = buffer (panel 8 1 [0x00])
   \<and> length (heap (panel 8 1 [0x00]) (buffer (panel 8 1 [0x00]))) = 1
   \<and> length (heap (fst (show_display (panel 8 1 [0x00]) idle_bus)) (buffer (panel 8 1 [0x00]))) = 1
   \<and> length (heap (fst (pixel (panel 8 1 [0x00]) 0 0 (Mono 1))) (buffer (panel 8 1 [0x00]))) = 1
   \<and> length (heap (fill (panel 8 1 [0x00]) (Mono 0)) (buffer (panel 8 1 [0x00]))) = 1
   \<and> length (heap (fst (image_display False (panel 8 1 [0x00]) corner_dot)) (buffer (panel 8 1 [0x00]))) = 1
   \<and> image_checks (panel 8 1 [0x00]) rgb_dot \<noteq> None
   \<and> fst (image_display True (panel 8 1 [0x00]) rgb_dot) = panel 8 1 [0x00]
   \<and> image_checks (panel 8 1 [0x00]) corner_dot = None
   \<and> buffer (panel 8 1 [0x00]) < next_addr (panel 8 1 [0x00])
   \<and> rotation (panel 8 1 [0x00]) \<noteq> 1 \<and> rotation (panel 8 1 [0x00]) \<noteq> 3
   \<and> 0 \<le> width (panel 8 1 [0x00]) \<and> width (panel 8 1 [0x00]) mod 8 = 0
   \<and> 0 \<le> height (panel 8 1 [0x00])
   \<and> buffer (fst (image_display True (panel 8 1 [0x00]) corner_dot)) = 1
   \<and> buffer (fst (image_display True (panel 8 1 [0x00]) corner_dot)) \<noteq> buffer (panel 8 1 [0x00])
   \<and> heap (fst (image_display True (panel 8 1 [0x00]) corner_dot)) (buffer (panel 8 1 [0x00])) = [0x00]
   \<and> length (heap (fst (image_display True (panel 8 1 [0x00]) corner_dot))
        (buffer (fst (image_display True (panel 8 1 [0x00]) corner_dot)))) = 1"
proof -
  have init: "init_display 8 1 = Inr (panel 8 1 [0x00])"
    using init_display_panel [of 8 1] by simp
  have f: "image_checks (panel 8 1 [0x00]) rgb_dot \<noteq> None"
    "image_checks (panel 8 1 [0x00]) corner_dot = None"
    "buffer (panel 8 1 [0x00]) < next_addr (panel 8 1 [0x00])"
    "rotation (panel 8 1 [0x00]) \<noteq> 1 \<and> rotation (panel 8 1 [0x00]) \<noteq> 3 \<and> 0 \<le> width (panel 8 1 [0x00])
       \<and> width (panel 8 1 [0x00]) mod 8 = 0 \<and> 0 \<le> height (panel 8 1 [0x00])"
    "next_addr (panel 8 1 [0x00]) = 1" "heap (panel 8 1 [0x00]) (buffer (panel 8 1 [0x00])) = [0x00]"
    "nat (width (panel 8 1 [0x00]) div 8 * height (panel 8 1 [0x00])) = 1"
    by (simp_all add: image_checks_def effective_size_def panel_def rgb_dot_def corner_dot_def)
  show ?thesis
    using init f
      buffer_lifetime [of 8 1 "panel 8 1 [0x00]" "panel 8 1 [0x00]" idle_bus 0 0 "Mono 1" "Mono 0" rgb_dot]
      buffer_lifetime [of 8 1 "panel 8 1 [0x00]" "panel 8 1 [0x00]" idle_bus 0 0 "Mono 1" "Mono 0" corner_dot]
    by auto
qed

text \<open>
  C8. With the packing path, \<^verbatim>\<open>image\<close> on a fresh 8 by 1 panel binds \<^verbatim>\<open>self.buffer\<close>
  to another array than the one allocated by \<^verbatim>\<open>__init__\<close>, which \<^verbatim>\<open>self.buf\<close> still
  names with its old content. A \<^verbatim>\<open>fill\<close> after it writes the old array, so the next
  \<^verbatim>\<open>show\<close> still sends the image byte \<open>0x80\<close>; after the per-pixel path, which keeps
  the one array, the same \<^verbatim>\<open>fill\<close> is sent as \<open>0xFF\<close>. On the same panel with rotation
  1 the new array has 8 bytes, not \<open>(8 div 8) * 1 = 1\<close>.
\<close>

theorem numpy_image_detaches_buffer:
  "init_display 8 1 = Inr (panel 8 1 [0x00])
   \<and> buffer (panel 8 1 [0x00]) = 0 \<and> buf (panel 8 1 [0x00]) = 0
   \<and> image_checks (panel 8 1 [0x00]) corner_dot = None
   \<and> snd (image_display True (panel 8 1 [0x00]) corner_dot) = None
   \<and> buffer (fst (image_display True (panel 8 1 [0x00]) corner_dot)) = 1
   \<and> buf (fst (image_display True (panel 8 1 [0x00]) corner_dot)) = 0
   \<and> heap (fst (image_display True (panel 8 1 [0x00]) corner_dot)) 1 = [0x80]
   \<and> heap (fst (image_display True (panel 8 1 [0x00]) corner_dot)) 0 = [0x00]
   \<and> wire (fst (snd (show_display
          (fill (fst (image_display True (panel 8 1 [0x00]) corner_dot)) (Mono 1)) idle_bus)))
        = [0xC0, 0x80, 0x80, 0x00, 0x00]
   \<and> buffer (fst (image_display False (panel 8 1 [0x00]) corner_dot)) = 0
   \<and> wire (fst (snd (show_display
          (fill (fst (image_display False (panel 8 1 [0x00]) corner_dot)) (Mono 1)) idle_bus)))
        = [0xC0, 0x80, 0xFF, 0x00, 0x00]
   \<and> image_checks ((panel 8 1 [0x00])\<lparr>rotation := 1\<rparr>) column_dot = None
   \<and> length (heap (fst (image_display True ((panel 8 1 [0x00])\<lparr>rotation := 1\<rparr>) column_dot))
        (buffer (fst (image_display True ((panel 8 1 [0x00])\<lparr>rotation := 1\<rparr>) column_dot)))) = 8
   \<and> nat (width ((panel 8 1 [0x00])\<lparr>rotation := 1\<rparr>) div 8 * height ((panel 8 1 [0x00])\<lparr>rotation := 1\<rparr>)) = 1"
proof -
  have init: "init_display 8 1 = Inr (panel 8 1 [0x00])"
    using init_display_panel [of 8 1] by simp
  have rest: "buffer (panel 8 1 [0x00]) = 0" "buf (panel 8 1 [0x00]) = 0"
    "image_checks (panel 8 1 [0x00]) corner_dot = None"
    "snd (image_display True (panel 8 1 [0x00]) corner_dot) = None"
    "buffer (fst (image_display True (panel 8 1 [0x00]) corner_dot)) = 1"
    "buf (fst (image_display True (panel 8 1 [0x00]) corner_dot)) = 0"
    "heap (fst (image_display True (panel 8 1 [0x00]) corner_dot)) 1 = [0x80]"
    "heap (fst (image_display True (panel 8 1 [0x00]) corner_dot)) 0 = [0x00]"
    "wire (fst (snd (show_display
          (fill (fst (image_display True (panel 8 1 [0x00]) corner_dot)) (Mono 1)) idle_bus)))
        = [0xC0, 0x80, 0x80, 0x00, 0x00]"
    "buffer (fst (image_display False (panel 8 1 [0x00]) corner_dot)) = 0"
    "wire (fst (snd (show_display
          (fill (fst (image_display False (panel 8 1 [0x00]) corner_dot)) (Mono 1)) idle_bus)))
        = [0xC0, 0x80, 0xFF, 0x00, 0x00]"
    "image_checks ((panel 8 1 [0x00])\<lparr>rotation := 1\<rparr>) column_dot = None"
    "length (heap (fst (image_display True ((panel 8 1 [0x00])\<lparr>rotation := 1\<rparr>) column_dot))
        (buffer (fst (image_display True ((panel 8 1 [0x00])\<lparr>rotation := 1\<rparr>) column_dot)))) = 8"
    "nat (width ((panel 8 1 [0x00])\<lparr>rotation := 1\<rparr>) div 8 * height ((panel 8 1 [0x00])\<lparr>rotation := 1\<rparr>)) = 1"
    by code_simp+
  from init rest show ?thesis
    by (simp only: simp_thms)
qed

text \<open>
  Witness for C8: after the packing path the two references name different arrays, and
  the frames sent after a \<^verbatim>\<open>fill\<close> differ between the two paths.
\<close>

theorem numpy_image_detaches_buffer_witness:
  "buffer (fst (image_display True (panel 8 1 [0x00]) corner_dot))
     \<noteq> buf (fst (image_display True (panel 8 1 [0x00]) corner_dot))
   \<and> wire (fst (snd (show_display
          (fill (fst (image_display True (panel 8 1 [0x00]) corner_dot)) (Mono 1)) idle_bus)))
     \<noteq> wire (fst (snd (show_display
          (fill (fst (image_display False (panel 8 1 [0x00]) corner_dot)) (Mono 1)) idle_bus)))"
  using numpy_image_detaches_buffer by simp


end
